theory Spec2Isabelle
  imports Complex_Main "HOL-Library.Sublist"
begin

section \<open>Strings\<close>

text \<open>
  A string is a list of 8-bit code units (U+0000 .. U+00FF). Every keyword the
  program compares against is ASCII, and within this range the only code units
  that \<^verbatim>\<open>toLowerCase\<close> sends to an ASCII letter are the ASCII capitals, so folding
  the ASCII capitals decides every substring test of the source.
\<close>

definition lower_char :: "char \<Rightarrow> char" where
  "lower_char c =
     (case map_of (zip ''ABCDEFGHIJKLMNOPQRSTUVWXYZ'' ''abcdefghijklmnopqrstuvwxyz'') c of
        Some d \<Rightarrow> d
      | None \<Rightarrow> c)"

definition toLowerCase :: "string \<Rightarrow> string" where
  "toLowerCase s = map lower_char s"

text \<open>\<^verbatim>\<open>String.prototype.includes\<close>: the argument occurs at some position.\<close>

fun includes_str :: "string \<Rightarrow> string \<Rightarrow> bool" where
  "includes_str [] sub = (sub = [])"
| "includes_str (c # cs) sub = (prefix sub (c # cs) \<or> includes_str cs sub)"

section \<open>Regular expressions\<close>

text \<open>
  The source parses steps with JavaScript regular expressions. They are embedded as
  values of a small syntax and run by a backtracking matcher, so that each pattern of
  the source is written down as it stands there.

  \<open>Cls P\<close> is one code unit of a class, \<open>Seq\<close> concatenation, \<open>Alt\<close> the ordered
  alternative \<^verbatim>\<open>a|b\<close>, \<open>Star\<close> the greedy \<^verbatim>\<open>a*\<close>, \<open>Grp\<close> a capturing group.
  None of the source's patterns has a group under a quantifier, and \<open>Star\<close> records no
  captures of its body.
\<close>

datatype regex =
    Cls "char \<Rightarrow> bool"
  | Eps
  | Seq regex regex
  | Alt regex regex
  | Star regex
  | Grp regex

text \<open>
  \<open>rmatch r s\<close> lists every way \<open>r\<close> matches a prefix of \<open>s\<close>, in the order a
  backtracking matcher tries them: each entry is the captured groups and the rest of
  the input after the match. The first entry is the match JavaScript reports. An
  iteration of \<open>Star\<close> that consumes nothing is rejected, as in ECMAScript.
\<close>

function rmatch :: "regex \<Rightarrow> string \<Rightarrow> (string list \<times> string) list" where
  "rmatch (Cls P) s = (case s of [] \<Rightarrow> [] | c # cs \<Rightarrow> if P c then [([], cs)] else [])"
| "rmatch Eps s = [([], s)]"
| "rmatch (Seq a b) s =
     concat (map (\<lambda>(c1, r1). map (\<lambda>(c2, r2). (c1 @ c2, r2)) (rmatch b r1)) (rmatch a s))"
| "rmatch (Alt a b) s = rmatch a s @ rmatch b s"
| "rmatch (Star a) s =
     concat (map (\<lambda>(c1, r1). if length r1 < length s then rmatch (Star a) r1 else []) (rmatch a s))
     @ [([], s)]"
| "rmatch (Grp a) s = map (\<lambda>(c, r). (take (length s - length r) s # c, r)) (rmatch a s)"
  by pat_completeness auto
termination
  by (relation "measures [\<lambda>(r, s). size r, \<lambda>(r, s). length s]") auto

declare rmatch.simps [simp del]

text \<open>\<^verbatim>\<open>a+\<close> and \<^verbatim>\<open>a?\<close>.\<close>

definition Plus :: "regex \<Rightarrow> regex" where
  "Plus r = Seq r (Star r)"

definition Opt :: "regex \<Rightarrow> regex" where
  "Opt r = Alt r Eps"

text \<open>
  Single characters. Under the flag \<^verbatim>\<open>i\<close> (without \<^verbatim>\<open>u\<close>) an ASCII letter of a
  pattern matches exactly its two ASCII cases.
\<close>

definition chr :: "char \<Rightarrow> regex" where
  "chr c = Cls (\<lambda>x. x = c)"

definition not_chr :: "char \<Rightarrow> regex" where
  "not_chr c = Cls (\<lambda>x. x \<noteq> c)"

definition chr_ci :: "char \<Rightarrow> regex" where
  "chr_ci c = Cls (\<lambda>x. lower_char x = lower_char c)"

primrec lit :: "string \<Rightarrow> regex" where
  "lit [] = Eps"
| "lit (c # cs) = Seq (chr c) (lit cs)"

primrec lit_ci :: "string \<Rightarrow> regex" where
  "lit_ci [] = Eps"
| "lit_ci (c # cs) = Seq (chr_ci c) (lit_ci cs)"

text \<open>\<^verbatim>\<open>\d\<close> and \<^verbatim>\<open>\s\<close> (the white space and line terminators below U+0100).\<close>

definition isDigit :: "char \<Rightarrow> bool" where
  "isDigit c = (c \<in> set ''0123456789'')"

definition isSpace :: "char \<Rightarrow> bool" where
  "isSpace c = (c \<in> set [CHR 0x09, CHR 0x0A, CHR 0x0B, CHR 0x0C, CHR 0x0D, CHR 0x20, CHR 0xA0])"

text \<open>
  \<^verbatim>\<open>String.prototype.match\<close> with a pattern without the flag \<^verbatim>\<open>g\<close>: the leftmost
  position at which the pattern matches, with the first match there. \<open>re_search\<close>
  returns the text before the match, the groups and the text after it.
\<close>

fun re_search :: "regex \<Rightarrow> string \<Rightarrow> string \<Rightarrow> (string \<times> string list \<times> string) option" where
  "re_search r pre [] =
     (case rmatch r [] of (caps, rest) # _ \<Rightarrow> Some (pre, caps, rest) | [] \<Rightarrow> None)"
| "re_search r pre (c # cs) =
     (case rmatch r (c # cs) of
        (caps, rest) # _ \<Rightarrow> Some (pre, caps, rest)
      | [] \<Rightarrow> re_search r (pre @ [c]) cs)"

definition str_match :: "regex \<Rightarrow> string \<Rightarrow> string list option" where
  "str_match r s = map_option (\<lambda>(pre, caps, rest). caps) (re_search r [] s)"

text \<open>\<open>group m i\<close> is \<^verbatim>\<open>m[i + 1]\<close> of a match array \<open>m\<close>.\<close>

definition group :: "string list \<Rightarrow> nat \<Rightarrow> string" where
  "group caps i = (if i < length caps then caps ! i else [])"

text \<open>
  \<^verbatim>\<open>String.prototype.split\<close> with a pattern: the input is cut at every match, found
  from left to right after the previous one; the groups of a separator are spliced
  into the result; an empty match at the start of a piece does not cut.
  \<open>acc\<close> is the piece collected so far.
\<close>

function re_split_from :: "regex \<Rightarrow> string \<Rightarrow> string \<Rightarrow> string list" where
  "re_split_from r acc [] = [acc]"
| "re_split_from r acc (c # cs) =
     (case rmatch r (c # cs) of
        [] \<Rightarrow> re_split_from r (acc @ [c]) cs
      | (caps, rest) # _ \<Rightarrow>
          if length rest < length (c # cs) then acc # caps @ re_split_from r [] rest
          else if acc = [] then re_split_from r [c] cs
          else acc # caps @ re_split_from r [c] cs)"
  by pat_completeness auto
termination
  by (relation "measure (\<lambda>(r, acc, s). length s)") auto

definition re_split :: "regex \<Rightarrow> string \<Rightarrow> string list" where
  "re_split r s = (if s = [] then (if rmatch r [] = [] then [[]] else []) else re_split_from r [] s)"

text \<open>
  \<^verbatim>\<open>String.prototype.replace\<close>: with a pattern that starts with \<^verbatim>\<open>^\<close> and has no flag
  \<^verbatim>\<open>g\<close> (only a match at index 0 is replaced), and with the flag \<^verbatim>\<open>g\<close> (every match,
  from left to right).
\<close>

definition re_replace_at_start :: "regex \<Rightarrow> string \<Rightarrow> string \<Rightarrow> string" where
  "re_replace_at_start r rep s = (case rmatch r s of [] \<Rightarrow> s | (caps, rest) # _ \<Rightarrow> rep @ rest)"

function re_replace_all :: "regex \<Rightarrow> string \<Rightarrow> string \<Rightarrow> string" where
  "re_replace_all r rep [] = (case rmatch r [] of [] \<Rightarrow> [] | _ # _ \<Rightarrow> rep)"
| "re_replace_all r rep (c # cs) =
     (case rmatch r (c # cs) of
        [] \<Rightarrow> c # re_replace_all r rep cs
      | (caps, rest) # _ \<Rightarrow>
          if length rest < length (c # cs) then rep @ re_replace_all r rep rest
          else rep @ c # re_replace_all r rep cs)"
  by pat_completeness auto
termination
  by (relation "measure (\<lambda>(r, rep, s). length s)") auto

text \<open>Decimal numerals: \<^verbatim>\<open>parseInt(ds, 10)\<close> on a string of digits, and \<^verbatim>\<open>n.toString()\<close>.\<close>

definition digit_val :: "char \<Rightarrow> nat" where
  "digit_val c =
     (case map_of (zip ''0123456789'' [0, 1, 2, 3, 4, 5, 6, 7, 8, 9]) c of
        Some d \<Rightarrow> d
      | None \<Rightarrow> 0)"

definition parseInt :: "string \<Rightarrow> nat" where
  "parseInt ds = foldl (\<lambda>n c. 10 * n + digit_val c) 0 ds"

function show_nat :: "nat \<Rightarrow> string" where
  "show_nat n =
     (if n < 10 then [''0123456789'' ! n]
      else show_nat (n div 10) @ [''0123456789'' ! (n mod 10)])"
  by pat_completeness auto
termination
  by (relation "measure id") auto

declare show_nat.simps [simp del]

section \<open>Data model (types/index and base-engine.ts)\<close>

datatype status = passed | failed | skipped | error

text \<open>The optional \<^verbatim>\<open>performance\<close> object of a result; each field may be undefined.\<close>

record performance_data =
  memoryUsage :: "rat option"
  cpuUsage :: "rat option"
  loadTime :: "rat option"

text \<open>
  \<^verbatim>\<open>TestResult\<close>. Times are epoch milliseconds. The engine tag is a string at run
  time (\<^verbatim>\<open>getEngine\<close> has a default branch for any other tag).
\<close>

record TestResult =
  testName :: string
  engine :: string
  status :: status
  duration :: int
  startTime :: int
  endTime :: int
  error :: "string option"
  screenshots :: "string list option"
  video :: "string option"
  logs :: "string list option"
  performance :: "performance_data option"

section \<open>Exceptions and JSON values\<close>

text \<open>
  A thrown value: an \<^verbatim>\<open>Error\<close> object with its message, or any other value. The
  source reads it with \<^verbatim>\<open>e instanceof Error ? e.message : 'Unknown error'\<close>.
\<close>

datatype thrown = Error string | NonError

definition errorMessage :: "thrown \<Rightarrow> string" where
  "errorMessage e = (case e of Error m \<Rightarrow> m | NonError \<Rightarrow> ''Unknown error'')"

datatype json =
    JNull
  | JBool bool
  | JNumber rat
  | JString string
  | JArray "json list"
  | JObject "(string \<times> json) list"

text \<open>
  Property access on a parsed JSON value, for a key that is no built-in property
  (\<^verbatim>\<open>value\<close>, \<^verbatim>\<open>ready\<close>, \<^verbatim>\<open>message\<close>, \<^verbatim>\<open>build\<close>): \<open>None\<close> is \<^verbatim>\<open>undefined\<close>. The last
  of several equal keys of an object wins, as in \<^verbatim>\<open>JSON.parse\<close>. Access on \<^verbatim>\<open>null\<close>
  raises a TypeError.
\<close>

definition nullAccessError :: "string \<Rightarrow> thrown" where
  "nullAccessError k = Error (''Cannot read properties of null (reading '' @ [CHR 0x27] @ k @ [CHR 0x27] @ '')'')"

definition getProp :: "json \<Rightarrow> string \<Rightarrow> thrown + json option" where
  "getProp j k =
     (case j of
        JNull \<Rightarrow> Inl (nullAccessError k)
      | JObject kvs \<Rightarrow> Inr (map_of (rev kvs) k)
      | _ \<Rightarrow> Inr None)"

text \<open>\<^verbatim>\<open>v?.k\<close> on a value that may be undefined.\<close>

definition optChain :: "json option \<Rightarrow> string \<Rightarrow> json option" where
  "optChain v k =
     (case v of
        None \<Rightarrow> None
      | Some JNull \<Rightarrow> None
      | Some j \<Rightarrow> (case getProp j k of Inl e \<Rightarrow> None | Inr r \<Rightarrow> r))"

definition truthy :: "json option \<Rightarrow> bool" where
  "truthy v =
     (case v of
        None \<Rightarrow> False
      | Some JNull \<Rightarrow> False
      | Some (JBool b) \<Rightarrow> b
      | Some (JNumber n) \<Rightarrow> n \<noteq> 0
      | Some (JString s) \<Rightarrow> s \<noteq> []
      | Some (JArray xs) \<Rightarrow> True
      | Some (JObject kvs) \<Rightarrow> True)"

text \<open>\<^verbatim>\<open>v || d\<close> with a default \<open>d\<close> that is a JSON value.\<close>

definition orElse :: "json option \<Rightarrow> json \<Rightarrow> json" where
  "orElse v d = (if truthy v then (case v of Some j \<Rightarrow> j | None \<Rightarrow> d) else d)"

section \<open>Step parser (base-engine.ts)\<close>

datatype action_kind = launch | tap | input | verify | wait | scroll | swipe | custom

text \<open>
  A parsed action \<^verbatim>\<open>{action, target?, value?}\<close>. The field \<^verbatim>\<open>value\<close> is \<open>val\<close> here.
\<close>

record action =
  action :: action_kind
  target :: "string option"
  val :: "string option"

subsection \<open>extractTarget\<close>

text \<open>\<^verbatim>\<open>/"([^"]+)"/\<close>\<close>

definition quotedPattern :: regex where
  "quotedPattern = Seq (chr CHR 0x22) (Seq (Grp (Plus (not_chr CHR 0x22))) (chr CHR 0x22))"

text \<open>\<^verbatim>\<open>/button[:\s]+([^,\s]+)/i\<close> and its four siblings.\<close>

definition elementPattern :: "string \<Rightarrow> regex" where
  "elementPattern w =
     Seq (lit_ci w)
       (Seq (Plus (Cls (\<lambda>c. c = CHR '':'' \<or> isSpace c)))
            (Grp (Plus (Cls (\<lambda>c. c \<noteq> CHR '','' \<and> \<not> isSpace c)))))"

definition elementPatterns :: "regex list" where
  "elementPatterns = map elementPattern [''button'', ''field'', ''link'', ''element'', ''on'']"

fun first_match :: "regex list \<Rightarrow> string \<Rightarrow> string list option" where
  "first_match [] s = None"
| "first_match (p # ps) s =
     (case str_match p s of Some m \<Rightarrow> Some m | None \<Rightarrow> first_match ps s)"

definition extractTarget :: "string \<Rightarrow> string" where
  "extractTarget step =
     (case str_match quotedPattern step of
        Some quoted \<Rightarrow> group quoted 0
      | None \<Rightarrow>
         (case first_match elementPatterns step of
            Some m \<Rightarrow> group m 0
          | None \<Rightarrow> step))"

subsection \<open>extractInputValues\<close>

definition ws1 :: regex where
  "ws1 = Plus (Cls isSpace)"

text \<open>\<^verbatim>\<open>/(?:type|enter)\s+"([^"]+)"\s+(?:into|in)\s+"([^"]+)"/i\<close>\<close>

definition typePattern :: regex where
  "typePattern =
     Seq (Alt (lit_ci ''type'') (lit_ci ''enter''))
    (Seq ws1
    (Seq (chr CHR 0x22) (Seq (Grp (Plus (not_chr CHR 0x22))) (Seq (chr CHR 0x22)
    (Seq ws1
    (Seq (Alt (lit_ci ''into'') (lit_ci ''in''))
    (Seq ws1
    (Seq (chr CHR 0x22) (Seq (Grp (Plus (not_chr CHR 0x22))) (chr CHR 0x22))))))))))"

text \<open>\<^verbatim>\<open>/(?:into|in|to)\s+/i\<close>, \<^verbatim>\<open>/^(?:type|enter)\s+/i\<close> and \<^verbatim>\<open>/"/g\<close>.\<close>

definition separatorPattern :: regex where
  "separatorPattern = Seq (Alt (lit_ci ''into'') (Alt (lit_ci ''in'') (lit_ci ''to''))) ws1"

definition verbPattern :: regex where
  "verbPattern = Seq (Alt (lit_ci ''type'') (lit_ci ''enter'')) ws1"

definition stripQuotes :: "string \<Rightarrow> string" where
  "stripQuotes s = re_replace_all (chr CHR 0x22) [] s"

text \<open>The result is the pair \<^verbatim>\<open>[target, value]\<close>.\<close>

definition extractInputValues :: "string \<Rightarrow> string \<times> string" where
  "extractInputValues step =
     (case str_match typePattern step of
        Some m \<Rightarrow> (group m 1, group m 0)
      | None \<Rightarrow>
          (let parts = re_split separatorPattern step in
           if length parts \<ge> 2 then
             (let v = stripQuotes (re_replace_at_start verbPattern [] (parts ! 0));
                  t = stripQuotes (parts ! 1)
              in (t, v))
           else (step, [])))"

subsection \<open>extractWaitDuration\<close>

text \<open>\<^verbatim>\<open>/(\d+)\s*(?:seconds?|secs?|ms|milliseconds?)?/i\<close>\<close>

definition durationTail :: regex where
  "durationTail =
     Seq (Star (Cls isSpace))
         (Opt (Alt (Seq (lit_ci ''second'') (Opt (chr_ci CHR ''s'')))
              (Alt (Seq (lit_ci ''sec'') (Opt (chr_ci CHR ''s'')))
              (Alt (lit_ci ''ms'')
                   (Seq (lit_ci ''millisecond'') (Opt (chr_ci CHR ''s'')))))))"

definition durationPattern :: regex where
  "durationPattern = Seq (Grp (Plus (Cls isDigit))) durationTail"

text \<open>
  The duration in milliseconds. The source computes with doubles; the model is exact
  on every digit string whose value times 1000 is below \<open>2^53\<close>.
\<close>

definition extractWaitDuration :: "string \<Rightarrow> nat" where
  "extractWaitDuration step =
     (case str_match durationPattern step of
        Some durationMatch \<Rightarrow>
          (let v = parseInt (group durationMatch 0) in
           if includes_str (toLowerCase step) ''ms'' \<or> includes_str (toLowerCase step) ''millisecond''
           then v else v * 1000)
      | None \<Rightarrow> 3000)"

subsection \<open>parseTestSteps\<close>

text \<open>The body of \<^verbatim>\<open>steps.map(step => ...)\<close>, and the map itself.\<close>

definition parseStep :: "string \<Rightarrow> action" where
  "parseStep step =
     (let lowercaseStep = toLowerCase step in
      if includes_str lowercaseStep ''launch'' \<or> includes_str lowercaseStep ''open'' then
        \<lparr>action = launch, target = Some (extractTarget step), val = None\<rparr>
      else if includes_str lowercaseStep ''tap'' \<or> includes_str lowercaseStep ''click'' then
        \<lparr>action = tap, target = Some (extractTarget step), val = None\<rparr>
      else if includes_str lowercaseStep ''type'' \<or> includes_str lowercaseStep ''enter'' then
        (case extractInputValues step of
           (t, v) \<Rightarrow> \<lparr>action = input, target = Some t, val = Some v\<rparr>)
      else if includes_str lowercaseStep ''verify'' \<or> includes_str lowercaseStep ''assert'' then
        \<lparr>action = verify, target = Some (extractTarget step), val = None\<rparr>
      else if includes_str lowercaseStep ''wait'' then
        \<lparr>action = wait, target = None, val = Some (show_nat (extractWaitDuration step))\<rparr>
      else if includes_str lowercaseStep ''scroll'' then
        \<lparr>action = scroll, target = Some (extractTarget step), val = None\<rparr>
      else if includes_str lowercaseStep ''swipe'' then
        \<lparr>action = swipe, target = Some (extractTarget step), val = None\<rparr>
      else \<lparr>action = custom, target = Some step, val = None\<rparr>)"

definition parseTestSteps :: "string list \<Rightarrow> action list" where
  "parseTestSteps steps = map parseStep steps"

section \<open>Health of the Appium adapter (appium-engine.ts, getHealthStatus)\<close>

text \<open>
  The outcome of \<^verbatim>\<open>fetch\<close> on the server's status endpoint: it rejects, or it
  answers with a response, whose \<^verbatim>\<open>ok\<close> says whether the HTTP status is 2xx and whose
  \<^verbatim>\<open>json()\<close> gives the parsed body or rejects.
\<close>

record http_response =
  ok :: bool
  body :: "thrown + json"

datatype health_details =
    DetailText string
  | DetailInfo (ready: json) (message: json) (build: json)

record health =
  health_status :: string
  details :: health_details

definition AppiumEngine_getHealthStatus :: "thrown + http_response \<Rightarrow> health" where
  "AppiumEngine_getHealthStatus fetched =
     (case fetched of
        Inl e \<Rightarrow> \<lparr>health_status = ''error'', details = DetailText (errorMessage e)\<rparr>
      | Inr response \<Rightarrow>
          if \<not> ok response then
            \<lparr>health_status = ''unhealthy'', details = DetailText ''Server not responding''\<rparr>
          else
            (case body response of
               Inl e \<Rightarrow> \<lparr>health_status = ''error'', details = DetailText (errorMessage e)\<rparr>
             | Inr data \<Rightarrow>
                 (case getProp data ''value'' of
                    Inl e \<Rightarrow> \<lparr>health_status = ''error'', details = DetailText (errorMessage e)\<rparr>
                  | Inr v \<Rightarrow>
                      \<lparr>health_status = ''healthy'',
                       details = DetailInfo
                         (orElse (optChain v ''ready'') (JBool False))
                         (orElse (optChain v ''message'') (JString ''Unknown''))
                         (orElse (optChain v ''build'') (JObject []))\<rparr>)))"

section \<open>The specification's reading of the parser\<close>

text \<open>
  The ordered rule list of the specification: the trigger words of each rule and the
  kind it assigns. A rule matches a step when one of its words occurs in the step
  without regard to case; the first matching rule decides.
\<close>

definition classificationRules :: "(string list \<times> action_kind) list" where
  "classificationRules =
     [([''launch'', ''open''], launch),
      ([''tap'', ''click''], tap),
      ([''type'', ''enter''], input),
      ([''verify'', ''assert''], verify),
      ([''wait''], wait),
      ([''scroll''], scroll),
      ([''swipe''], swipe)]"

definition rule_matches :: "string \<Rightarrow> string list \<times> action_kind \<Rightarrow> bool" where
  "rule_matches step rule = list_ex (\<lambda>w. includes_str (toLowerCase step) w) (fst rule)"

definition classify :: "string \<Rightarrow> action_kind" where
  "classify step =
     (case find (rule_matches step) classificationRules of
        Some rule \<Rightarrow> snd rule
      | None \<Rightarrow> custom)"

text \<open>
  The first integer of a string: the first maximal run of decimal digits, read as a
  decimal numeral. The duration is that integer when the string contains \<^verbatim>\<open>ms\<close> or
  \<^verbatim>\<open>millisecond\<close> (case ignored, as everywhere in the parser), a thousand times it
  otherwise, and 3000 when the string has no integer.
\<close>

definition firstInteger :: "string \<Rightarrow> nat option" where
  "firstInteger s =
     (case dropWhile (\<lambda>c. \<not> isDigit c) s of
        [] \<Rightarrow> None
      | d # ds \<Rightarrow> Some (parseInt (takeWhile isDigit (d # ds))))"

definition waitDurationSpec :: "string \<Rightarrow> nat" where
  "waitDurationSpec s =
     (case firstInteger s of
        None \<Rightarrow> 3000
      | Some n \<Rightarrow>
          if includes_str (toLowerCase s) ''ms'' \<or> includes_str (toLowerCase s) ''millisecond''
          then n else n * 1000)"

text \<open>The number of capture groups outside any \<open>Star\<close>.\<close>

primrec ngroups :: "regex \<Rightarrow> nat" where
  "ngroups (Cls P) = 0"
| "ngroups Eps = 0"
| "ngroups (Seq a b) = ngroups a + ngroups b"
| "ngroups (Alt a b) = max (ngroups a) (ngroups b)"
| "ngroups (Star a) = 0"
| "ngroups (Grp a) = Suc (ngroups a)"

section \<open>The specification's reading of input steps\<close>

text \<open>
  The words of the specification about input steps, written without the matcher.
  \<open>starts_ci w s\<close>: the step \<open>s\<close> begins with the word \<open>w\<close>, case ignored.
  \<open>word_then_space w s\<close>: \<open>s\<close> begins with \<open>w\<close> followed by white space; the result is
  the text after that white space.
\<close>

definition starts_ci :: "string \<Rightarrow> string \<Rightarrow> bool" where
  "starts_ci w s = (length w \<le> length s \<and> toLowerCase (take (length w) s) = toLowerCase w)"

definition white_after :: "nat \<Rightarrow> string \<Rightarrow> bool" where
  "white_after n s = (case drop n s of [] \<Rightarrow> False | c # _ \<Rightarrow> isSpace c)"

definition word_then_space :: "string \<Rightarrow> string \<Rightarrow> string option" where
  "word_then_space w s =
     (if starts_ci w s \<and> white_after (length w) s
      then Some (dropWhile isSpace (drop (length w) s)) else None)"

text \<open>
  \<open>quotedAt s\<close>: \<open>s\<close> begins with a double quote, a non-empty text without quotes and a
  double quote; the result is that text and what follows the closing quote.
\<close>

definition quotedAt :: "string \<Rightarrow> (string \<times> string) option" where
  "quotedAt s =
     (case s of
        [] \<Rightarrow> None
      | c # cs \<Rightarrow>
          if c = CHR 0x22 \<and> takeWhile (\<lambda>x. x \<noteq> CHR 0x22) cs \<noteq> [] then
            (case dropWhile (\<lambda>x. x \<noteq> CHR 0x22) cs of
               [] \<Rightarrow> None
             | q # rest \<Rightarrow> Some (takeWhile (\<lambda>x. x \<noteq> CHR 0x22) cs, rest))
          else None)"

text \<open>
  The form \<^verbatim>\<open>type "V" into "T"\<close> at the start of \<open>s\<close>: the verb \<^verbatim>\<open>type\<close> or \<^verbatim>\<open>enter\<close>,
  the quoted value, the word \<^verbatim>\<open>into\<close> or \<^verbatim>\<open>in\<close>, the quoted target, white space
  between them. \<open>findTypeForm\<close> is the leftmost place of the step where the form stands.
\<close>

definition verbAt :: "string \<Rightarrow> string option" where
  "verbAt s =
     (case word_then_space ''type'' s of Some r \<Rightarrow> Some r | None \<Rightarrow> word_then_space ''enter'' s)"

definition intoAt :: "string \<Rightarrow> string option" where
  "intoAt s =
     (case word_then_space ''into'' s of Some r \<Rightarrow> Some r | None \<Rightarrow> word_then_space ''in'' s)"

definition typeFormAt :: "string \<Rightarrow> (string \<times> string \<times> string) option" where
  "typeFormAt s =
     (case verbAt s of None \<Rightarrow> None | Some s1 \<Rightarrow>
     (case quotedAt s1 of None \<Rightarrow> None | Some (v, s2) \<Rightarrow>
     (case word_then_space [] s2 of None \<Rightarrow> None | Some s3 \<Rightarrow>
     (case intoAt s3 of None \<Rightarrow> None | Some s4 \<Rightarrow>
     (case quotedAt s4 of None \<Rightarrow> None | Some (t, s5) \<Rightarrow> Some (v, t, s5))))))"

fun findTypeForm :: "string \<Rightarrow> (string \<times> string) option" where
  "findTypeForm [] = None"
| "findTypeForm (c # cs) =
     (case typeFormAt (c # cs) of Some (v, t, rest) \<Rightarrow> Some (v, t) | None \<Rightarrow> findTypeForm cs)"

text \<open>
  A separator is one of the words \<^verbatim>\<open>into\<close>, \<^verbatim>\<open>in\<close>, \<^verbatim>\<open>to\<close> (anywhere, also inside
  a longer word) followed by white space. \<open>cutAtSeparator s\<close> cuts \<open>s\<close> at its first
  separator: the text before it, and the text after it and its white space.
\<close>

definition separatorAt :: "string \<Rightarrow> string option" where
  "separatorAt s =
     (case word_then_space ''into'' s of
        Some r \<Rightarrow> Some r
      | None \<Rightarrow>
         (case word_then_space ''in'' s of
            Some r \<Rightarrow> Some r
          | None \<Rightarrow> word_then_space ''to'' s))"

fun cutAtSeparator :: "string \<Rightarrow> (string \<times> string) option" where
  "cutAtSeparator [] = None"
| "cutAtSeparator (c # cs) =
     (case separatorAt (c # cs) of
        Some rest \<Rightarrow> Some ([], rest)
      | None \<Rightarrow> map_option (\<lambda>(b, a). (c # b, a)) (cutAtSeparator cs))"

text \<open>Stripping the verb at the start of a text, and every double quote.\<close>

definition stripVerb :: "string \<Rightarrow> string" where
  "stripVerb s = (case verbAt s of Some r \<Rightarrow> r | None \<Rightarrow> s)"

definition unquote :: "string \<Rightarrow> string" where
  "unquote s = filter (\<lambda>c. c \<noteq> CHR 0x22) s"

text \<open>
  The claim as the specification states it: the pattern first; otherwise one cut, at
  the first separator, with the value before it and the target after it.
\<close>

definition extractInputValuesFirstCut :: "string \<Rightarrow> string \<times> string" where
  "extractInputValuesFirstCut step =
     (case findTypeForm step of
        Some (v, t) \<Rightarrow> (t, v)
      | None \<Rightarrow>
         (case cutAtSeparator step of
            None \<Rightarrow> (step, [])
          | Some (pre, post) \<Rightarrow> (unquote post, unquote (stripVerb pre))))"

text \<open>
  What the source does: \<^verbatim>\<open>split\<close> cuts at every separator and the target is the
  second piece, the text between the first separator and the second one.
\<close>

definition extractInputValuesAmended :: "string \<Rightarrow> string \<times> string" where
  "extractInputValuesAmended step =
     (case findTypeForm step of
        Some (v, t) \<Rightarrow> (t, v)
      | None \<Rightarrow>
         (case cutAtSeparator step of
            None \<Rightarrow> (step, [])
          | Some (pre, post) \<Rightarrow>
              (unquote (case cutAtSeparator post of None \<Rightarrow> post | Some (mid, r) \<Rightarrow> mid),
               unquote (stripVerb pre))))"

text \<open>
  Auxiliary notions for the proofs: a pattern that rejects every input starting with
  a character of a class, and the parts of \<open>typePattern\<close>.
\<close>

definition rejects :: "(char \<Rightarrow> bool) \<Rightarrow> regex \<Rightarrow> bool" where
  "rejects P R = (\<forall>c r. P c \<longrightarrow> rmatch R (c # r) = [])"

definition quotedEnd :: regex where
  "quotedEnd = Seq (chr CHR 0x22) (Seq (Grp (Plus (not_chr CHR 0x22))) (chr CHR 0x22))"

definition typeTail :: regex where
  "typeTail = Seq ws1 (Seq (Alt (lit_ci ''into'') (lit_ci ''in'')) (Seq ws1 quotedEnd))"

definition typeQuoted :: regex where
  "typeQuoted = Seq (chr CHR 0x22) (Seq (Grp (Plus (not_chr CHR 0x22))) (Seq (chr CHR 0x22) typeTail))"

section \<open>The specification's reading of the health contract\<close>

text \<open>The readiness flag of the status body: \<^verbatim>\<open>data.value?.ready\<close>, read as a condition.\<close>

definition readinessFlag :: "json \<Rightarrow> bool" where
  "readinessFlag data =
     (case getProp data ''value'' of Inl e \<Rightarrow> False | Inr v \<Rightarrow> truthy (optChain v ''ready''))"

text \<open>A status body of a server that answers but is not ready.\<close>

definition notReadyBody :: json where
  "notReadyBody = JObject [(''value'', JObject [(''ready'', JBool False), (''message'', JString ''starting'')])]"

section \<open>Result aggregation (test-engine-manager.ts, calculateCoverage)\<close>

record coverage =
  functional :: rat
  visual :: rat
  performance_cov :: rat
  accessibility :: rat

text \<open>
  \<^verbatim>\<open>(xs.filter(t => t.status === 'passed').length / xs.length) * 100\<close>, over the
  rationals. The source computes in IEEE doubles; rounding is monotone and 0, 1 and
  100 are representable, so the bounds proved below carry over.
\<close>

definition passRate :: "TestResult list \<Rightarrow> rat" where
  "passRate ts = (of_nat (length (filter (\<lambda>t. status t = passed) ts)) / of_nat (length ts)) * 100"

definition nameHas :: "string \<Rightarrow> TestResult \<Rightarrow> bool" where
  "nameHas kw r = includes_str (toLowerCase (testName r)) kw"

definition functionalTests :: "TestResult list \<Rightarrow> TestResult list" where
  "functionalTests results =
     filter (\<lambda>r. nameHas ''function'' r \<or> nameHas ''core'' r \<or> nameHas ''flow'' r) results"

definition visualTests :: "TestResult list \<Rightarrow> TestResult list" where
  "visualTests results =
     filter (\<lambda>r. nameHas ''visual'' r \<or> nameHas ''ui'' r \<or> nameHas ''interface'' r) results"

definition performanceTests :: "TestResult list \<Rightarrow> TestResult list" where
  "performanceTests results =
     filter (\<lambda>r. nameHas ''performance'' r \<or> nameHas ''load'' r \<or> performance r \<noteq> None) results"

definition accessibilityTests :: "TestResult list \<Rightarrow> TestResult list" where
  "accessibilityTests results =
     filter (\<lambda>r. nameHas ''accessibility'' r \<or> nameHas ''a11y'' r) results"

definition baselineScore :: "TestResult list \<Rightarrow> rat" where
  "baselineScore results = (if length results > 0 then passRate results else 0)"

definition calculateCoverage :: "TestResult list \<Rightarrow> coverage" where
  "calculateCoverage results =
     \<lparr> functional =
         (if length (functionalTests results) > 0 then passRate (functionalTests results)
          else baselineScore results),
       visual =
         (if length (visualTests results) > 0 then passRate (visualTests results)
          else max (baselineScore results - 20) 0),
       performance_cov =
         (if length (performanceTests results) > 0 then passRate (performanceTests results)
          else max (baselineScore results - 30) 0),
       accessibility =
         (if length (accessibilityTests results) > 0 then passRate (accessibilityTests results)
          else max (baselineScore results - 40) 0) \<rparr>"

section \<open>Properties of the matcher\<close>

lemmas rmatch_basic = rmatch.simps(1,2,3,4,6)

lemma includes_str_iff: "includes_str s sub \<longleftrightarrow> (\<exists>p q. s = p @ sub @ q)"
proof (induction s)
  case Nil
  then show ?case by auto
next
  case (Cons c cs)
  show ?case
  proof
    assume "includes_str (c # cs) sub"
    then consider "prefix sub (c # cs)" | "includes_str cs sub" by auto
    then show "\<exists>p q. c # cs = p @ sub @ q"
    proof cases
      case 1
      then obtain q where "c # cs = sub @ q" by (auto simp: prefix_def)
      then have "c # cs = [] @ sub @ q" by simp
      then show ?thesis by blast
    next
      case 2
      then obtain p q where "cs = p @ sub @ q" using Cons.IH by blast
      then have "c # cs = (c # p) @ sub @ q" by simp
      then show ?thesis by blast
    qed
  next
    assume "\<exists>p q. c # cs = p @ sub @ q"
    then obtain p q where pq: "c # cs = p @ sub @ q" by blast
    show "includes_str (c # cs) sub"
    proof (cases p)
      case Nil
      then have "prefix sub (c # cs)" using pq by (simp add: prefix_def)
      then show ?thesis by simp
    next
      case (Cons a p')
      then have "cs = p' @ sub @ q" using pq by simp
      then have "includes_str cs sub" using Cons.IH by blast
      then show ?thesis by simp
    qed
  qed
qed

lemma rmatch_Star_unfold:
  "rmatch (Star a) s =
     concat (map (\<lambda>(c1, r1). if length r1 < length s then rmatch (Star a) r1 else []) (rmatch a s))
     @ [([], s)]"
  by (rule rmatch.simps(5))

text \<open>Patterns that match at every position.\<close>

lemma rmatch_Star_nonempty: "rmatch (Star a) s \<noteq> []"
  by (subst rmatch_Star_unfold) simp

lemma rmatch_Opt_nonempty: "rmatch (Opt a) s \<noteq> []"
  by (simp add: Opt_def rmatch_basic)

lemma rmatch_Seq_nonempty:
  assumes "rmatch a s \<noteq> []" "\<And>t. rmatch b t \<noteq> []"
  shows "rmatch (Seq a b) s \<noteq> []"
proof -
  obtain c1 r1 xs where a: "rmatch a s = (c1, r1) # xs"
    using assms(1) by (cases "rmatch a s") auto
  obtain c2 r2 ys where b: "rmatch b r1 = (c2, r2) # ys"
    using assms(2) [of r1] by (cases "rmatch b r1") auto
  show ?thesis by (simp add: rmatch_basic a b)
qed

lemma rmatch_Star_Cls:
  "rmatch (Star (Cls P)) (c # cs) =
     (if P c then rmatch (Star (Cls P)) cs else []) @ [([], c # cs)]"
  by (subst rmatch_Star_unfold) (simp add: rmatch_basic)

lemma rmatch_Star_Cls_Nil: "rmatch (Star (Cls P)) [] = [([], [])]"
  by (subst rmatch_Star_unfold) (simp add: rmatch_basic)

text \<open>
  A greedy run of one character class, followed by something that cannot go on after
  a character of the class, takes the whole run: no shorter repetition succeeds.
\<close>

lemma star_cls_run:
  assumes "\<And>c r. P c \<Longrightarrow> h (c # r) = []"
  shows "concat (map (\<lambda>(c1, r1). h r1) (rmatch (Star (Cls P)) s)) = h (dropWhile P s)"
proof (induction s)
  case Nil
  show ?case by (simp add: rmatch_Star_Cls_Nil)
next
  case (Cons c cs)
  show ?case
  proof (cases "P c")
    case True
    have "concat (map (\<lambda>(c1, r1). h r1) (rmatch (Star (Cls P)) (c # cs))) =
          concat (map (\<lambda>(c1, r1). h r1) (rmatch (Star (Cls P)) cs)) @ h (c # cs)"
      using True by (simp only: rmatch_Star_Cls if_True map_append concat_append) simp
    also have "\<dots> = h (dropWhile P cs)"
      using Cons.IH assms [OF True] by simp
    finally show ?thesis using True by simp
  next
    case False
    then show ?thesis by (simp only: rmatch_Star_Cls) simp
  qed
qed

lemma star_cls_caps: "(c1, r1) \<in> set (rmatch (Star (Cls P)) s) \<Longrightarrow> c1 = []"
proof (induction s)
  case Nil
  then show ?case by (simp add: rmatch_Star_Cls_Nil)
next
  case (Cons c cs)
  then show ?case by (simp only: rmatch_Star_Cls) (auto split: if_splits)
qed

lemma star_cls_head: "\<exists>xs. rmatch (Star (Cls P)) s = ([], dropWhile P s) # xs"
proof (induction s)
  case Nil
  show ?case by (simp add: rmatch_Star_Cls_Nil)
next
  case (Cons c cs)
  then obtain xs where "rmatch (Star (Cls P)) cs = ([], dropWhile P cs) # xs" by blast
  then show ?case by (simp only: rmatch_Star_Cls) simp
qed

lemma plus_cls_head:
  "rmatch (Plus (Cls P)) s =
     (case s of [] \<Rightarrow> [] | c # cs \<Rightarrow> if P c then rmatch (Star (Cls P)) cs else [])"
proof (cases s)
  case Nil
  then show ?thesis by (simp add: Plus_def rmatch_basic)
next
  case (Cons c cs)
  have "map (\<lambda>(c2, r2). ([] @ c2, r2)) xs = xs" for xs :: "(string list \<times> string) list"
    by (induction xs) auto
  then show ?thesis using Cons by (simp add: Plus_def rmatch_basic)
qed

lemma rmatch_Seq_elem:
  "(c, rest) \<in> set (rmatch (Seq a b) s) \<longleftrightarrow>
   (\<exists>c1 r1 c2. (c1, r1) \<in> set (rmatch a s) \<and> (c2, rest) \<in> set (rmatch b r1) \<and> c = c1 @ c2)"
  by (force simp: rmatch_basic)

lemma rmatch_Star_elem:
  "(c, rest) \<in> set (rmatch (Star a) s) \<longleftrightarrow>
   ((c, rest) = ([], s) \<or>
    (\<exists>c1 r1. (c1, r1) \<in> set (rmatch a s) \<and> length r1 < length s \<and>
       (c, rest) \<in> set (rmatch (Star a) r1)))"
  by (subst rmatch_Star_unfold) (auto split: if_splits)

lemma rmatch_suffix: "(c, rest) \<in> set (rmatch r s) \<Longrightarrow> suffix rest s"
proof (induction r s arbitrary: c rest rule: rmatch.induct)
  case (1 P s)
  then show ?case by (auto simp: rmatch_basic suffix_def split: list.splits if_splits)
next
  case (2 s)
  then show ?case by (simp add: rmatch_basic)
next
  case (3 a b s)
  from "3.prems" obtain c1 r1 c2 where
    a: "(c1, r1) \<in> set (rmatch a s)" and b: "(c2, rest) \<in> set (rmatch b r1)"
    unfolding rmatch_Seq_elem by blast
  have "suffix r1 s" using "3.IH"(1) [OF a] .
  moreover have "suffix rest r1" using "3.IH"(2) [OF a refl b] .
  ultimately show ?case by (rule suffix_order.trans [rotated])
next
  case (4 a b s)
  then show ?case by (auto simp: rmatch_basic)
next
  case (5 a s)
  from "5.prems" have
    "(c, rest) = ([], s) \<or> (\<exists>c1 r1. (c1, r1) \<in> set (rmatch a s) \<and> length r1 < length s \<and>
        (c, rest) \<in> set (rmatch (Star a) r1))"
    by (subst (asm) rmatch_Star_elem) blast
  then show ?case
  proof
    assume "(c, rest) = ([], s)"
    then show ?thesis by simp
  next
    assume "\<exists>c1 r1. (c1, r1) \<in> set (rmatch a s) \<and> length r1 < length s \<and>
        (c, rest) \<in> set (rmatch (Star a) r1)"
    then obtain c1 r1 where a: "(c1, r1) \<in> set (rmatch a s)" and l: "length r1 < length s"
      and st: "(c, rest) \<in> set (rmatch (Star a) r1)" by blast
    have "suffix r1 s" using "5.IH"(1) [OF a] .
    moreover have "suffix rest r1" using "5.IH"(2) [OF a refl l st] .
    ultimately show ?thesis by (rule suffix_order.trans [rotated])
  qed
next
  case (6 a s)
  then show ?case by (auto simp: rmatch_basic)
qed

lemma rmatch_no_groups: "(c, rest) \<in> set (rmatch r s) \<Longrightarrow> ngroups r = 0 \<Longrightarrow> c = []"
proof (induction r s arbitrary: c rest rule: rmatch.induct)
  case (1 P s)
  then show ?case by (auto simp: rmatch_basic split: list.splits if_splits)
next
  case (2 s)
  then show ?case by (simp add: rmatch_basic)
next
  case (3 a b s)
  from "3.prems"(1) obtain c1 r1 c2 where
    a: "(c1, r1) \<in> set (rmatch a s)" and b: "(c2, rest) \<in> set (rmatch b r1)" and c: "c = c1 @ c2"
    unfolding rmatch_Seq_elem by blast
  have "c1 = []" using "3.IH"(1) [OF a] "3.prems"(2) by simp
  moreover have "c2 = []" using "3.IH"(2) [OF a refl b] "3.prems"(2) by simp
  ultimately show ?case using c by simp
next
  case (4 a b s)
  then show ?case by (auto simp: rmatch_basic max_def split: if_splits)
next
  case (5 a s)
  from "5.prems"(1) have
    "(c, rest) = ([], s) \<or> (\<exists>c1 r1. (c1, r1) \<in> set (rmatch a s) \<and> length r1 < length s \<and>
        (c, rest) \<in> set (rmatch (Star a) r1))"
    by (subst (asm) rmatch_Star_elem) blast
  then show ?case
  proof
    assume "(c, rest) = ([], s)"
    then show ?thesis by simp
  next
    assume "\<exists>c1 r1. (c1, r1) \<in> set (rmatch a s) \<and> length r1 < length s \<and>
        (c, rest) \<in> set (rmatch (Star a) r1)"
    then obtain c1 r1 where a: "(c1, r1) \<in> set (rmatch a s)" and l: "length r1 < length s"
      and st: "(c, rest) \<in> set (rmatch (Star a) r1)" by blast
    show ?thesis using "5.IH"(2) [OF a refl l st] by simp
  qed
next
  case (6 a s)
  then show ?case by simp
qed

text \<open>The first result of a group around a greedy run, followed by a pattern that always matches.\<close>

lemma grp_plus_cls_Nil: "rmatch (Grp (Plus (Cls P))) [] = []"
  by (simp add: rmatch_basic plus_cls_head)

lemma grp_plus_cls_Cons:
  "rmatch (Grp (Plus (Cls P))) (c # cs) =
     (if P c then map (\<lambda>(c0, r). (take (length (c # cs) - length r) (c # cs) # c0, r))
                   (rmatch (Star (Cls P)) cs)
      else [])"
  by (simp add: rmatch_basic plus_cls_head)

lemma take_dropWhile_run:
  assumes "P c"
  shows "take (length (c # cs) - length (dropWhile P cs)) (c # cs) = takeWhile P (c # cs)"
proof -
  have "length (takeWhile P cs @ dropWhile P cs) = length cs"
    by simp
  then have "length (takeWhile P cs) + length (dropWhile P cs) = length cs"
    by (simp only: length_append)
  then have n: "length (c # cs) - length (dropWhile P cs) = Suc (length (takeWhile P cs))"
    by simp
  have "take (length (takeWhile P cs)) cs = takeWhile P cs"
    by (rule takeWhile_eq_take [symmetric])
  then have "take (Suc (length (takeWhile P cs))) (c # cs) = c # takeWhile P cs"
    by simp
  then show ?thesis using assms n by simp
qed

lemma seq_grp_plus_none:
  assumes "s = [] \<or> \<not> P (hd s)"
  shows "rmatch (Seq (Grp (Plus (Cls P))) T) s = []"
proof (cases s)
  case Nil
  then show ?thesis by (simp add: rmatch.simps(3) grp_plus_cls_Nil)
next
  case (Cons c cs)
  then have "\<not> P c" using assms by simp
  then show ?thesis using Cons by (simp add: rmatch.simps(3) grp_plus_cls_Cons)
qed

lemma seq_grp_plus_first:
  assumes nz: "\<And>t. rmatch T t \<noteq> []" and ng: "ngroups T = 0" and c: "P c"
  shows "\<exists>rest xs. rmatch (Seq (Grp (Plus (Cls P))) T) (c # cs) =
           ([takeWhile P (c # cs)], rest) # xs"
proof -
  obtain xs where st: "rmatch (Star (Cls P)) cs = ([], dropWhile P cs) # xs"
    using star_cls_head by blast
  obtain c2 r2 ys where t: "rmatch T (dropWhile P cs) = (c2, r2) # ys"
    using nz [of "dropWhile P cs"] by (cases "rmatch T (dropWhile P cs)") auto
  have "(c2, r2) \<in> set (rmatch T (dropWhile P cs))" using t by simp
  then have c2: "c2 = []"
    using rmatch_no_groups ng by blast
  define g where "g = (\<lambda>(c0 :: string list, r :: string). (take (length (c # cs) - length r) (c # cs) # c0, r))"
  have g0: "g ([], dropWhile P cs) = ([takeWhile P (c # cs)], dropWhile P cs)"
    unfolding g_def using take_dropWhile_run [of P c cs, OF c] by simp
  have "rmatch (Grp (Plus (Cls P))) (c # cs) = map g (rmatch (Star (Cls P)) cs)"
    unfolding g_def using c by (simp only: grp_plus_cls_Cons if_True)
  then have g: "rmatch (Grp (Plus (Cls P))) (c # cs) =
      ([takeWhile P (c # cs)], dropWhile P cs) # map g xs"
    using st g0 by simp
  have "rmatch (Seq (Grp (Plus (Cls P))) T) (c # cs) =
      ([takeWhile P (c # cs)], r2) #
      (map (\<lambda>(c2, r2). ([takeWhile P (c # cs)] @ c2, r2)) ys @
       concat (map (\<lambda>(c1, r1). map (\<lambda>(c2, r2). (c1 @ c2, r2)) (rmatch T r1)) (map g xs)))"
    by (simp add: rmatch.simps(3) g t c2)
  then show ?thesis by blast
qed

lemma re_search_none:
  assumes "\<And>t. rmatch r t \<noteq> [] \<longleftrightarrow> (t \<noteq> [] \<and> P (hd t))"
    and "\<forall>c\<in>set s. \<not> P c"
  shows "re_search r pre s = None"
  using assms(2)
proof (induction s arbitrary: pre)
  case Nil
  have "rmatch r [] = []" using assms(1) [of "[]"] by simp
  then show ?case by simp
next
  case (Cons c cs)
  then have "rmatch r (c # cs) = []" using assms(1) [of "c # cs"] by simp
  then show ?case using Cons by simp
qed

lemma re_search_some:
  assumes "\<And>t. rmatch r t \<noteq> [] \<longleftrightarrow> (t \<noteq> [] \<and> P (hd t))"
    and "\<forall>c\<in>set a. \<not> P c" and "P t"
  shows "re_search r pre (a @ t # ts) =
           Some (pre @ a, fst (hd (rmatch r (t # ts))), snd (hd (rmatch r (t # ts))))"
  using assms(2)
proof (induction a arbitrary: pre)
  case Nil
  have "rmatch r (t # ts) \<noteq> []" using assms(1) [of "t # ts"] assms(3) by simp
  then obtain caps rest xs where m: "rmatch r (t # ts) = (caps, rest) # xs"
    by (cases "rmatch r (t # ts)") auto
  then show ?case by simp
next
  case (Cons c cs)
  then have "rmatch r (c # cs @ t # ts) = []" using assms(1) [of "c # cs @ t # ts"] by simp
  then show ?case using Cons.IH [of "pre @ [c]"] Cons.prems by simp
qed

lemma map_caps_id: "map (\<lambda>(c2, r2). ([] @ c2, r2)) xs = xs"
  by (induction xs) auto

lemma rmatch_Seq_Cls:
  "rmatch (Seq (Cls P) R) s = (case s of [] \<Rightarrow> [] | c # cs \<Rightarrow> if P c then rmatch R cs else [])"
  by (cases s) (simp_all add: rmatch_basic map_caps_id)

lemma rmatch_Seq_Eps: "rmatch (Seq Eps R) s = rmatch R s"
  by (simp add: rmatch_basic map_caps_id)

lemma rmatch_Seq_Alt: "rmatch (Seq (Alt a b) R) s = rmatch (Seq a R) s @ rmatch (Seq b R) s"
  by (simp add: rmatch_basic)

lemma seq_assoc_inner:
  "concat (map (\<lambda>(c, r). map (\<lambda>(c3, r3). (c @ c3, r3)) (rmatch R r))
             (map (\<lambda>(c2, r2). (c1 @ c2, r2)) ys)) =
   map (\<lambda>(c', r'). (c1 @ c', r'))
     (concat (map (\<lambda>(c2, r2). map (\<lambda>(c3, r3). (c2 @ c3, r3)) (rmatch R r2)) ys))"
  by (induction ys) (auto simp: case_prod_beta)

lemma seq_assoc_outer:
  "concat (map (\<lambda>(c, r). map (\<lambda>(c3, r3). (c @ c3, r3)) (rmatch R r))
             (concat (map (\<lambda>(c1, r1). map (\<lambda>(c2, r2). (c1 @ c2, r2)) (rmatch b r1)) xs))) =
   concat (map (\<lambda>(c1, r1). map (\<lambda>(c', r'). (c1 @ c', r'))
     (concat (map (\<lambda>(c2, r2). map (\<lambda>(c3, r3). (c2 @ c3, r3)) (rmatch R r2)) (rmatch b r1)))) xs)"
proof (induction xs)
  case Nil
  show ?case by simp
next
  case (Cons x xs)
  obtain c1 r1 where x: "x = (c1, r1)" by (cases x)
  show ?case
    using Cons.IH seq_assoc_inner [of R c1 "rmatch b r1"] by (simp add: x)
qed

lemma rmatch_Seq_assoc: "rmatch (Seq (Seq a b) R) s = rmatch (Seq a (Seq b R)) s"
  by (simp only: rmatch.simps(3) seq_assoc_outer)

lemma starts_ci_Nil: "starts_ci [] s"
  by (simp add: starts_ci_def toLowerCase_def)

lemma starts_ci_Cons:
  "starts_ci (w # ws) s \<longleftrightarrow> (case s of [] \<Rightarrow> False | c # cs \<Rightarrow> lower_char c = lower_char w \<and> starts_ci ws cs)"
  by (cases s) (auto simp: starts_ci_def toLowerCase_def)

lemma rmatch_lit_ci:
  "rmatch (Seq (lit_ci w) R) s = (if starts_ci w s then rmatch R (drop (length w) s) else [])"
proof (induction w arbitrary: s)
  case Nil
  then show ?case by (simp add: rmatch_Seq_Eps starts_ci_Nil)
next
  case (Cons a w)
  have "rmatch (Seq (lit_ci (a # w)) R) s = rmatch (Seq (chr_ci a) (Seq (lit_ci w) R)) s"
    by (simp add: rmatch_Seq_assoc)
  also have "\<dots> = (case s of [] \<Rightarrow> [] | c # cs \<Rightarrow>
      if lower_char c = lower_char a then rmatch (Seq (lit_ci w) R) cs else [])"
    by (simp add: chr_ci_def rmatch_Seq_Cls)
  also have "\<dots> = (if starts_ci (a # w) s then rmatch R (drop (length (a # w)) s) else [])"
    by (cases s) (simp_all add: Cons.IH starts_ci_Cons)
  finally show ?case .
qed

text \<open>A greedy run before a pattern that rejects the characters of the run.\<close>

lemma plus_run_seq:
  assumes "rejects P R"
  shows "rmatch (Seq (Plus (Cls P)) R) s =
     (case s of [] \<Rightarrow> [] | c # cs \<Rightarrow> if P c then rmatch R (dropWhile P s) else [])"
proof (cases s)
  case Nil
  then show ?thesis by (simp add: rmatch.simps(3) plus_cls_head)
next
  case (Cons c cs)
  show ?thesis
  proof (cases "P c")
    case False
    then show ?thesis using Cons by (simp add: rmatch.simps(3) plus_cls_head)
  next
    case True
    have e: "map (\<lambda>(c1, r1). map (\<lambda>(c2, r2). (c1 @ c2, r2)) (rmatch R r1)) (rmatch (Star (Cls P)) cs)
        = map (\<lambda>(c1, r1). rmatch R r1) (rmatch (Star (Cls P)) cs)"
      by (rule map_cong [OF refl]) (auto dest: star_cls_caps simp: map_caps_id)
    have "rmatch (Seq (Plus (Cls P)) R) (c # cs) =
        concat (map (\<lambda>(c1, r1). rmatch R r1) (rmatch (Star (Cls P)) cs))"
      using True by (simp add: rmatch.simps(3) plus_cls_head e)
    also have "\<dots> = rmatch R (dropWhile P cs)"
      using assms by (intro star_cls_run) (simp add: rejects_def)
    finally show ?thesis using Cons True by simp
  qed
qed

lemma grp_run_seq:
  assumes "rejects P R"
  shows "rmatch (Seq (Grp (Plus (Cls P))) R) s =
     (case s of [] \<Rightarrow> []
      | c # cs \<Rightarrow> if P c then map (\<lambda>(c2, r2). (takeWhile P s # c2, r2)) (rmatch R (dropWhile P s))
                 else [])"
proof (cases s)
  case Nil
  then show ?thesis by (simp add: rmatch.simps(3) grp_plus_cls_Nil)
next
  case (Cons c cs)
  show ?thesis
  proof (cases "P c")
    case False
    then show ?thesis using Cons by (simp add: rmatch.simps(3) grp_plus_cls_Cons)
  next
    case True
    define h where "h = (\<lambda>r. map (\<lambda>(c2, r2). (take (length (c # cs) - length r) (c # cs) # c2, r2)) (rmatch R r))"
    define g where "g = (\<lambda>(c0::string list, r::string). (take (length (c # cs) - length r) (c # cs) # c0, r))"
    define F where "F = (\<lambda>(c1::string list, r1). map (\<lambda>(c2, r2). (c1 @ c2, r2)) (rmatch R r1))"
    have rej: "\<And>c' r. P c' \<Longrightarrow> h (c' # r) = []"
      using assms by (simp add: h_def rejects_def)
    have g1: "rmatch (Grp (Plus (Cls P))) (c # cs) = map g (rmatch (Star (Cls P)) cs)"
      using True unfolding g_def by (simp only: grp_plus_cls_Cons if_True)
    have g2: "rmatch (Seq (Grp (Plus (Cls P))) R) (c # cs) =
        concat (map F (map g (rmatch (Star (Cls P)) cs)))"
      unfolding F_def by (simp only: rmatch.simps(3) g1)
    have g3: "map F (map g xs) = map (\<lambda>(c1, r1). h r1) xs" if "\<forall>x\<in>set xs. fst x = []" for xs
      using that by (induction xs) (auto simp: F_def g_def h_def)
    have "\<forall>x\<in>set (rmatch (Star (Cls P)) cs). fst x = []"
      using star_cls_caps by fastforce
    then have "rmatch (Seq (Grp (Plus (Cls P))) R) (c # cs) =
        concat (map (\<lambda>(c1, r1). h r1) (rmatch (Star (Cls P)) cs))"
      by (simp only: g2 g3)
    also have "\<dots> = h (dropWhile P cs)"
      by (rule star_cls_run [of P h, OF rej])
    also have "\<dots> = map (\<lambda>(c2, r2). (takeWhile P (c # cs) # c2, r2)) (rmatch R (dropWhile P cs))"
      using take_dropWhile_run [of P c cs, OF True] by (simp add: h_def)
    finally show ?thesis using Cons True by simp
  qed
qed

section \<open>The step parser\<close>

subsection \<open>Classification\<close>

lemma parseStep_classify: "action (parseStep step) = classify step"
  by (simp add: parseStep_def classify_def classificationRules_def rule_matches_def Let_def
      split: prod.splits)

lemma parseStep_custom:
  "find (rule_matches step) classificationRules = None \<Longrightarrow>
   parseStep step = \<lparr>action = custom, target = Some step, val = None\<rparr>"
  by (simp add: parseStep_def classificationRules_def rule_matches_def Let_def split: if_splits)

lemma classify_first:
  assumes "i < length classificationRules" "rule_matches step (classificationRules ! i)"
    "\<forall>k<i. \<not> rule_matches step (classificationRules ! k)"
  shows "classify step = snd (classificationRules ! i)"
proof -
  have "find (rule_matches step) classificationRules = Some (classificationRules ! i)"
    unfolding find_Some_iff using assms by blast
  then show ?thesis by (simp add: classify_def)
qed


text \<open>
  C3. Every step is classified by the first rule of the ordered rule list
  launch|open, tap|click, type|enter, verify|assert, wait, scroll, swipe one of whose
  words occurs in the step, case ignored; a step that matches no rule becomes a custom
  action whose target is the step itself; so a step with trigger words of two rules
  gets the kind of the earlier rule.
\<close>

theorem parser_first_match_wins:
  "map action (parseTestSteps steps) = map classify steps \<and>
   (\<forall>i. i < length classificationRules \<and> rule_matches step (classificationRules ! i) \<and>
        (\<forall>k<i. \<not> rule_matches step (classificationRules ! k)) \<longrightarrow>
        action (parseStep step) = snd (classificationRules ! i)) \<and>
   (find (rule_matches step) classificationRules = None \<longrightarrow>
      parseStep step = \<lparr>action = custom, target = Some step, val = None\<rparr>)"
proof -
  have "map action (parseTestSteps steps) = map classify steps"
    by (simp add: parseTestSteps_def parseStep_classify)
  moreover have "\<forall>i. i < length classificationRules \<and> rule_matches step (classificationRules ! i) \<and>
        (\<forall>k<i. \<not> rule_matches step (classificationRules ! k)) \<longrightarrow>
        action (parseStep step) = snd (classificationRules ! i)"
    using classify_first [of _ step] by (simp add: parseStep_classify)
  moreover have "find (rule_matches step) classificationRules = None \<longrightarrow>
      parseStep step = \<lparr>action = custom, target = Some step, val = None\<rparr>"
    using parseStep_custom [of step] by blast
  ultimately show ?thesis by blast
qed

lemma parser_samples:
  "rule_matches ''Tap the Open button'' (classificationRules ! 0) \<and>
   rule_matches ''Tap the Open button'' (classificationRules ! 1) \<and>
   snd (classificationRules ! 0) = launch \<and>
   snd (classificationRules ! 1) = tap \<and>
   find (rule_matches ''press the home key'') classificationRules = None"
  by code_simp

theorem parser_first_match_wins_witness:
  "rule_matches ''Tap the Open button'' (classificationRules ! 0) \<and>
   rule_matches ''Tap the Open button'' (classificationRules ! 1) \<and>
   snd (classificationRules ! 1) = tap \<and>
   action (parseStep ''Tap the Open button'') = launch \<and>
   find (rule_matches ''press the home key'') classificationRules = None \<and>
   parseStep ''press the home key'' =
     \<lparr>action = custom, target = Some ''press the home key'', val = None\<rparr>"
proof -
  have len: "0 < length classificationRules"
    by (simp add: classificationRules_def)
  have "action (parseStep ''Tap the Open button'') = snd (classificationRules ! 0)"
    using parser_first_match_wins [of "[]" "''Tap the Open button''", THEN conjunct2,
        THEN conjunct1, THEN spec, of 0] parser_samples len
    by simp
  moreover have "parseStep ''press the home key'' =
     \<lparr>action = custom, target = Some ''press the home key'', val = None\<rparr>"
    using parser_first_match_wins [of "[]" "''press the home key''"] parser_samples
    by simp
  ultimately show ?thesis using parser_samples by simp
qed

subsection \<open>Wait durations\<close>

lemma durationPattern_split: "durationPattern = Seq (Grp (Plus (Cls isDigit))) durationTail"
  by (simp add: durationPattern_def)

lemma durationTail_matches: "rmatch durationTail t \<noteq> []"
  unfolding durationTail_def
  by (rule rmatch_Seq_nonempty [OF rmatch_Star_nonempty rmatch_Opt_nonempty])

lemma durationTail_groups: "ngroups durationTail = 0"
  by (simp add: durationTail_def Opt_def chr_ci_def)

lemma durationPattern_matches_iff:
  "rmatch durationPattern t \<noteq> [] \<longleftrightarrow> (t \<noteq> [] \<and> isDigit (hd t))"
proof (cases t)
  case Nil
  then show ?thesis using seq_grp_plus_none [of t isDigit durationTail]
    by (simp add: durationPattern_split)
next
  case (Cons c cs)
  show ?thesis
  proof (cases "isDigit c")
    case True
    obtain rest xs where
      "rmatch durationPattern (c # cs) = ([takeWhile isDigit (c # cs)], rest) # xs"
      using seq_grp_plus_first [of durationTail isDigit c cs, OF durationTail_matches durationTail_groups True]
      unfolding durationPattern_split by blast
    then show ?thesis using Cons True by simp
  next
    case False
    then show ?thesis using Cons seq_grp_plus_none [of t isDigit durationTail]
      by (simp add: durationPattern_split)
  qed
qed

lemma durationPattern_caps:
  assumes "isDigit c"
  shows "fst (hd (rmatch durationPattern (c # cs))) = [takeWhile isDigit (c # cs)]"
proof -
  obtain rest xs where
    "rmatch durationPattern (c # cs) = ([takeWhile isDigit (c # cs)], rest) # xs"
    using seq_grp_plus_first [of durationTail isDigit c cs, OF durationTail_matches durationTail_groups assms]
    unfolding durationPattern_split by blast
  then show ?thesis by simp
qed

lemma str_match_durationPattern:
  "str_match durationPattern s =
     (case dropWhile (\<lambda>c. \<not> isDigit c) s of
        [] \<Rightarrow> None
      | d # ds \<Rightarrow> Some [takeWhile isDigit (d # ds)])"
proof (cases "dropWhile (\<lambda>c. \<not> isDigit c) s")
  case Nil
  then have "\<forall>c\<in>set s. \<not> isDigit c"
    by (simp add: dropWhile_eq_Nil_conv)
  then have "re_search durationPattern [] s = None"
    by (rule re_search_none [of durationPattern isDigit, OF durationPattern_matches_iff])
  then have "str_match durationPattern s = None"
    by (simp add: str_match_def)
  then show ?thesis by (simp only: Nil list.case)
next
  case (Cons d ds)
  have s: "s = takeWhile (\<lambda>c. \<not> isDigit c) s @ d # ds"
    using Cons by (metis takeWhile_dropWhile_id)
  have d: "isDigit d"
    using Cons by (metis (mono_tags, lifting) hd_dropWhile list.sel(1) list.distinct(1))
  have a: "\<forall>c\<in>set (takeWhile (\<lambda>c. \<not> isDigit c) s). \<not> isDigit c"
    by (auto dest: set_takeWhileD)
  have "re_search durationPattern [] (takeWhile (\<lambda>c. \<not> isDigit c) s @ d # ds) =
      Some ([] @ takeWhile (\<lambda>c. \<not> isDigit c) s,
            fst (hd (rmatch durationPattern (d # ds))), snd (hd (rmatch durationPattern (d # ds))))"
    by (rule re_search_some [of durationPattern isDigit, OF durationPattern_matches_iff a d])
  then have "str_match durationPattern s = Some (fst (hd (rmatch durationPattern (d # ds))))"
    using s by (simp add: str_match_def case_prod_beta)
  then have "str_match durationPattern s = Some [takeWhile isDigit (d # ds)]"
    using durationPattern_caps [OF d] by simp
  then show ?thesis by (simp only: Cons list.case)
qed

lemma extractWaitDuration_spec: "extractWaitDuration step = waitDurationSpec step"
proof (cases "dropWhile (\<lambda>c. \<not> isDigit c) step")
  case Nil
  have m: "str_match durationPattern step = None"
    by (simp only: str_match_durationPattern Nil list.case)
  have f: "firstInteger step = None"
    by (simp only: firstInteger_def Nil list.case)
  show ?thesis
    by (simp only: extractWaitDuration_def waitDurationSpec_def m f option.case)
next
  case (Cons d ds)
  have m: "str_match durationPattern step = Some [takeWhile isDigit (d # ds)]"
    by (simp only: str_match_durationPattern Cons list.case)
  have f: "firstInteger step = Some (parseInt (takeWhile isDigit (d # ds)))"
    by (simp only: firstInteger_def Cons list.case)
  have g: "group [takeWhile isDigit (d # ds)] 0 = takeWhile isDigit (d # ds)"
    by (simp add: group_def)
  show ?thesis
    by (simp only: extractWaitDuration_def waitDurationSpec_def m f g option.case Let_def)
qed

lemma wait_examples:
  "extractWaitDuration ''wait 5 seconds'' = 5000 \<and>
   extractWaitDuration ''wait 500 ms'' = 500 \<and>
   extractWaitDuration ''wait'' = 3000"
  by code_simp


lemma wait_sample:
  "firstInteger ''pause, then wait 12 secs'' = Some 12 \<and>
   \<not> includes_str (toLowerCase ''pause, then wait 12 secs'') ''ms'' \<and>
   \<not> includes_str (toLowerCase ''pause, then wait 12 secs'') ''millisecond''"
  by code_simp


section \<open>Input steps\<close>

lemma rejects_chr: "\<not> P c \<Longrightarrow> rejects P (Seq (chr c) R)"
  by (auto simp: rejects_def chr_def rmatch_Seq_Cls)

lemma rejects_chr_end: "\<not> P c \<Longrightarrow> rejects P (chr c)"
  by (auto simp: rejects_def chr_def rmatch_basic)

lemma dropWhile_neq_hd: "dropWhile (\<lambda>x. x \<noteq> q) cs = c # r \<Longrightarrow> c = q"
  using hd_dropWhile [of "\<lambda>x. x \<noteq> q" cs] by auto

lemma grp_run_seq_alt:
  assumes "rejects P R"
  shows "rmatch (Seq (Grp (Plus (Cls P))) R) s =
     (if takeWhile P s = [] then []
      else map (\<lambda>(c2, r2). (takeWhile P s # c2, r2)) (rmatch R (dropWhile P s)))"
  by (cases s) (simp_all add: grp_run_seq [OF assms])

lemma quoted_seq:
  "rmatch (Seq (chr CHR 0x22) (Seq (Grp (Plus (not_chr CHR 0x22))) (Seq (chr CHR 0x22) R))) s =
     (case quotedAt s of
        None \<Rightarrow> []
      | Some (v, rest) \<Rightarrow> map (\<lambda>(c2, r2). (v # c2, r2)) (rmatch R rest))"
proof (cases s)
  case Nil
  then show ?thesis by (simp add: chr_def rmatch_Seq_Cls quotedAt_def)
next
  case (Cons c cs)
  have rej: "rejects (\<lambda>x. x \<noteq> CHR 0x22) (Seq (chr CHR 0x22) R)"
    by (rule rejects_chr) simp
  show ?thesis
  proof (cases "c = CHR 0x22")
    case False
    then show ?thesis using Cons by (simp add: chr_def rmatch_Seq_Cls quotedAt_def)
  next
    case True
    have "rmatch (Seq (chr CHR 0x22) (Seq (Grp (Plus (not_chr CHR 0x22))) (Seq (chr CHR 0x22) R))) s
        = rmatch (Seq (Grp (Plus (Cls (\<lambda>x. x \<noteq> CHR 0x22)))) (Seq (chr CHR 0x22) R)) cs"
      using Cons True by (simp add: chr_def not_chr_def rmatch_Seq_Cls)
    also have "\<dots> = (if takeWhile (\<lambda>x. x \<noteq> CHR 0x22) cs = [] then []
        else map (\<lambda>(c2, r2). (takeWhile (\<lambda>x. x \<noteq> CHR 0x22) cs # c2, r2))
              (rmatch (Seq (chr CHR 0x22) R) (dropWhile (\<lambda>x. x \<noteq> CHR 0x22) cs)))"
      by (rule grp_run_seq_alt [OF rej])
    also have "\<dots> = (case quotedAt s of
        None \<Rightarrow> []
      | Some (v, rest) \<Rightarrow> map (\<lambda>(c2, r2). (v # c2, r2)) (rmatch R rest))"
    proof (cases "dropWhile (\<lambda>x. x \<noteq> CHR 0x22) cs")
      case Nil
      show ?thesis
        using True by (simp add: \<open>s = c # cs\<close> quotedAt_def Nil chr_def rmatch_Seq_Cls)
    next
      case (Cons q rest)
      then have q: "q = CHR 0x22" by (rule dropWhile_neq_hd)
      show ?thesis
        using True q by (simp add: \<open>s = c # cs\<close> quotedAt_def Cons chr_def rmatch_Seq_Cls)
    qed
    finally show ?thesis .
  qed
qed

lemma rmatch_chr: "rmatch (chr q) s = (case s of [] \<Rightarrow> [] | c # cs \<Rightarrow> if c = q then [([], cs)] else [])"
  by (simp add: chr_def rmatch_basic)

lemma quoted_end:
  "rmatch (Seq (chr CHR 0x22) (Seq (Grp (Plus (not_chr CHR 0x22))) (chr CHR 0x22))) s =
     (case quotedAt s of None \<Rightarrow> [] | Some (v, rest) \<Rightarrow> [([v], rest)])"
proof (cases s)
  case Nil
  then show ?thesis by (simp add: chr_def rmatch_Seq_Cls quotedAt_def)
next
  case (Cons c cs)
  have rej: "rejects (\<lambda>x. x \<noteq> CHR 0x22) (chr CHR 0x22)"
    by (rule rejects_chr_end) simp
  show ?thesis
  proof (cases "c = CHR 0x22")
    case False
    then show ?thesis using Cons by (simp add: chr_def rmatch_Seq_Cls quotedAt_def)
  next
    case True
    have "rmatch (Seq (chr CHR 0x22) (Seq (Grp (Plus (not_chr CHR 0x22))) (chr CHR 0x22))) s
        = rmatch (Seq (Grp (Plus (Cls (\<lambda>x. x \<noteq> CHR 0x22)))) (chr CHR 0x22)) cs"
      using Cons True by (simp add: chr_def not_chr_def rmatch_Seq_Cls)
    also have "\<dots> = (if takeWhile (\<lambda>x. x \<noteq> CHR 0x22) cs = [] then []
        else map (\<lambda>(c2, r2). (takeWhile (\<lambda>x. x \<noteq> CHR 0x22) cs # c2, r2))
              (rmatch (chr CHR 0x22) (dropWhile (\<lambda>x. x \<noteq> CHR 0x22) cs)))"
      by (rule grp_run_seq_alt [OF rej])
    also have "\<dots> = (case quotedAt s of None \<Rightarrow> [] | Some (v, rest) \<Rightarrow> [([v], rest)])"
    proof (cases "dropWhile (\<lambda>x. x \<noteq> CHR 0x22) cs")
      case Nil
      show ?thesis
        using True by (simp add: \<open>s = c # cs\<close> quotedAt_def Nil rmatch_chr)
    next
      case (Cons q rest)
      then have q: "q = CHR 0x22" by (rule dropWhile_neq_hd)
      show ?thesis
        using True q by (simp add: \<open>s = c # cs\<close> quotedAt_def Cons rmatch_chr)
    qed
    finally show ?thesis .
  qed
qed

lemma word_space_seq:
  assumes "rejects isSpace R"
  shows "rmatch (Seq (lit_ci w) (Seq ws1 R)) s =
     (case word_then_space w s of None \<Rightarrow> [] | Some r \<Rightarrow> rmatch R r)"
proof (cases "starts_ci w s")
  case False
  then show ?thesis by (simp add: rmatch_lit_ci word_then_space_def)
next
  case True
  have "rmatch (Seq (lit_ci w) (Seq ws1 R)) s = rmatch (Seq (Plus (Cls isSpace)) R) (drop (length w) s)"
    using True by (simp add: rmatch_lit_ci ws1_def)
  also have "\<dots> = (case drop (length w) s of [] \<Rightarrow> []
      | c # cs \<Rightarrow> if isSpace c then rmatch R (dropWhile isSpace (drop (length w) s)) else [])"
    by (rule plus_run_seq [OF assms])
  also have "\<dots> = (case word_then_space w s of None \<Rightarrow> [] | Some r \<Rightarrow> rmatch R r)"
    using True by (simp add: word_then_space_def white_after_def split: list.splits)
  finally show ?thesis .
qed

lemma space_seq:
  assumes "rejects isSpace R"
  shows "rmatch (Seq ws1 R) s = (case word_then_space [] s of None \<Rightarrow> [] | Some r \<Rightarrow> rmatch R r)"
  using word_space_seq [OF assms, of "[]" s] by (simp add: rmatch_Seq_Eps)

lemma lower_char_letters:
  "lower_char CHR ''t'' = CHR ''t''" "lower_char CHR ''e'' = CHR ''e''"
  "lower_char CHR ''i'' = CHR ''i''" "lower_char CHR ''n'' = CHR ''n''"
  "lower_char CHR ''o'' = CHR ''o''"
  by (simp_all add: lower_char_def)

lemma lower_char_spaces:
  "lower_char (CHR 0x09) = CHR 0x09" "lower_char (CHR 0x0A) = CHR 0x0A"
  "lower_char (CHR 0x0B) = CHR 0x0B" "lower_char (CHR 0x0C) = CHR 0x0C"
  "lower_char (CHR 0x0D) = CHR 0x0D" "lower_char (CHR 0x20) = CHR 0x20"
  "lower_char (CHR 0xA0) = CHR 0xA0"
  by (simp_all add: lower_char_def)

lemma isSpace_lower: "isSpace c \<Longrightarrow> lower_char c = c"
  unfolding isSpace_def using lower_char_spaces by auto

lemma isSpace_not_letter:
  "isSpace c \<Longrightarrow> c \<noteq> CHR ''t'' \<and> c \<noteq> CHR ''e'' \<and> c \<noteq> CHR ''i'' \<and> c \<noteq> CHR ''n'' \<and> c \<noteq> CHR ''o''"
  by (auto simp: isSpace_def)

lemma not_space_quote: "\<not> isSpace CHR 0x22"
  by (simp add: isSpace_def)

lemma starts_ci_space:
  assumes "isSpace c" "lower_char w = w" "\<not> isSpace w"
  shows "\<not> starts_ci (w # ws) (c # r)"
  using assms by (auto simp: starts_ci_Cons isSpace_lower)

lemma rejects_word:
  assumes "lower_char w = w" "\<not> isSpace w"
  shows "rejects isSpace (Seq (lit_ci (w # ws)) R)"
  unfolding rejects_def
proof (intro allI impI)
  fix c r
  assume "isSpace c"
  then have "\<not> starts_ci (w # ws) (c # r)" using assms by (rule starts_ci_space)
  then show "rmatch (Seq (lit_ci (w # ws)) R) (c # r) = []"
    by (simp only: rmatch_lit_ci if_False)
qed

lemma rejects_Alt:
  "rejects P (Seq a R) \<Longrightarrow> rejects P (Seq b R) \<Longrightarrow> rejects P (Seq (Alt a b) R)"
  by (simp add: rejects_def rmatch_Seq_Alt)

lemma verb_exclusive: "word_then_space ''type'' s = Some r \<Longrightarrow> word_then_space ''enter'' s = None"
  by (cases s) (auto simp: word_then_space_def starts_ci_Cons lower_char_letters split: if_splits)

lemma into_no_space: "starts_ci ''into'' s \<Longrightarrow> \<not> white_after (length ''in'') s"
proof -
  assume a: "starts_ci ''into'' s"
  then obtain a b c r where s: "s = a # b # c # r" and c: "lower_char c = CHR ''t''"
    by (auto simp: starts_ci_Cons lower_char_letters split: list.splits)
  have "\<not> isSpace c"
  proof
    assume sp: "isSpace c"
    then have "c = CHR ''t''" using c isSpace_lower by simp
    then show False using sp isSpace_not_letter by blast
  qed
  then show ?thesis using s by (simp add: white_after_def)
qed

lemma into_exclusive: "word_then_space ''into'' s = Some r \<Longrightarrow> word_then_space ''in'' s = None"
proof -
  assume "word_then_space ''into'' s = Some r"
  then have "starts_ci ''into'' s" by (simp add: word_then_space_def split: if_splits)
  then have "\<not> white_after (length ''in'') s" by (rule into_no_space)
  then show ?thesis by (simp only: word_then_space_def simp_thms if_False)
qed

lemma typePattern_split:
  "typePattern = Seq (Alt (lit_ci ''type'') (lit_ci ''enter'')) (Seq ws1 typeQuoted)"
  by (simp add: typePattern_def typeQuoted_def typeTail_def quotedEnd_def)

lemma rejects_quotedEnd: "rejects isSpace quotedEnd"
  unfolding quotedEnd_def by (rule rejects_chr) (rule not_space_quote)

lemma rejects_typeQuoted: "rejects isSpace typeQuoted"
  unfolding typeQuoted_def by (rule rejects_chr) (rule not_space_quote)

lemma rmatch_into:
  "rmatch (Seq (Alt (lit_ci ''into'') (lit_ci ''in'')) (Seq ws1 quotedEnd)) s =
     (case intoAt s of None \<Rightarrow> [] | Some r \<Rightarrow> rmatch quotedEnd r)"
proof (cases "word_then_space ''into'' s")
  case None
  then show ?thesis
    by (simp add: rmatch_Seq_Alt word_space_seq [OF rejects_quotedEnd] intoAt_def
        del: lit_ci.simps)
next
  case (Some r)
  then have "word_then_space ''in'' s = None" by (rule into_exclusive)
  then show ?thesis using Some
    by (simp add: rmatch_Seq_Alt word_space_seq [OF rejects_quotedEnd] intoAt_def
        del: lit_ci.simps)
qed

lemma rejects_into: "rejects isSpace (Seq (Alt (lit_ci ''into'') (lit_ci ''in'')) (Seq ws1 quotedEnd))"
proof (rule rejects_Alt)
  show "rejects isSpace (Seq (lit_ci ''into'') (Seq ws1 quotedEnd))"
    by (rule rejects_word) (simp_all add: lower_char_letters isSpace_def)
  show "rejects isSpace (Seq (lit_ci ''in'') (Seq ws1 quotedEnd))"
    by (rule rejects_word) (simp_all add: lower_char_letters isSpace_def)
qed

lemma rmatch_typeTail:
  "rmatch typeTail s =
     (case word_then_space [] s of None \<Rightarrow> []
      | Some s3 \<Rightarrow> (case intoAt s3 of None \<Rightarrow> [] | Some r \<Rightarrow> rmatch quotedEnd r))"
  unfolding typeTail_def by (simp only: space_seq [OF rejects_into] rmatch_into)

lemma rmatch_verb:
  "rmatch typePattern s = (case verbAt s of None \<Rightarrow> [] | Some r \<Rightarrow> rmatch typeQuoted r)"
proof (cases "word_then_space ''type'' s")
  case None
  then show ?thesis
    by (simp add: typePattern_split rmatch_Seq_Alt word_space_seq [OF rejects_typeQuoted] verbAt_def
        del: lit_ci.simps)
next
  case (Some r)
  then have "word_then_space ''enter'' s = None" by (rule verb_exclusive)
  then show ?thesis using Some
    by (simp add: typePattern_split rmatch_Seq_Alt word_space_seq [OF rejects_typeQuoted] verbAt_def
        del: lit_ci.simps)
qed

lemma rmatch_typePattern:
  "rmatch typePattern s =
     (case typeFormAt s of None \<Rightarrow> [] | Some (v, t, rest) \<Rightarrow> [([v, t], rest)])"
proof -
  have q: "rmatch quotedEnd r = (case quotedAt r of None \<Rightarrow> [] | Some (v, rest) \<Rightarrow> [([v], rest)])" for r
    unfolding quotedEnd_def by (rule quoted_end)
  have t: "rmatch typeQuoted r =
      (case quotedAt r of None \<Rightarrow> []
       | Some (v, rest) \<Rightarrow> map (\<lambda>(c2, r2). (v # c2, r2)) (rmatch typeTail rest))" for r
    unfolding typeQuoted_def by (rule quoted_seq)
  show ?thesis
    by (simp add: rmatch_verb t rmatch_typeTail q typeFormAt_def split: option.splits)
qed

lemma typeFormAt_Nil: "typeFormAt [] = None"
  by (simp add: typeFormAt_def verbAt_def word_then_space_def starts_ci_def)

lemma str_match_typePattern:
  "map_option (\<lambda>(p, caps, rest). caps) (re_search typePattern pre s) =
     map_option (\<lambda>(v, t). [v, t]) (findTypeForm s)"
proof (induction s arbitrary: pre)
  case Nil
  then show ?case by (simp add: rmatch_typePattern typeFormAt_Nil)
next
  case (Cons c cs)
  show ?case
  proof (cases "typeFormAt (c # cs)")
    case None
    then show ?thesis using Cons.IH [of "pre @ [c]"] by (simp add: rmatch_typePattern)
  next
    case (Some x)
    obtain v t rest where x: "x = (v, t, rest)" by (cases x)
    show ?thesis using Some x by (simp add: rmatch_typePattern)
  qed
qed

lemma rmatch_ws1:
  "rmatch ws1 t = (case t of [] \<Rightarrow> [] | c # cs \<Rightarrow> if isSpace c then rmatch (Star (Cls isSpace)) cs else [])"
  unfolding ws1_def by (rule plus_cls_head)

lemma word_space_end_None:
  "word_then_space w s = None \<Longrightarrow> rmatch (Seq (lit_ci w) ws1) s = []"
  by (auto simp: rmatch_lit_ci rmatch_ws1 word_then_space_def white_after_def
      split: if_splits list.splits)

lemma word_space_end_Some:
  assumes "word_then_space w s = Some r"
  shows "\<exists>xs. rmatch (Seq (lit_ci w) ws1) s = ([], r) # xs"
proof -
  from assms have st: "starts_ci w s" and wa: "white_after (length w) s"
    and r: "r = dropWhile isSpace (drop (length w) s)"
    by (auto simp: word_then_space_def split: if_splits)
  from wa obtain c cs where d: "drop (length w) s = c # cs" and c: "isSpace c"
    by (auto simp: white_after_def split: list.splits)
  obtain xs where "rmatch (Star (Cls isSpace)) cs = ([], dropWhile isSpace cs) # xs"
    using star_cls_head by blast
  then have "rmatch (Seq (lit_ci w) ws1) s = ([], r) # xs"
    using st d c r by (simp add: rmatch_lit_ci rmatch_ws1)
  then show ?thesis by blast
qed

lemma word_then_space_shorter:
  assumes "word_then_space w s = Some r"
  shows "length r < length s"
proof -
  from assms have wa: "white_after (length w) s"
    and r: "r = dropWhile isSpace (drop (length w) s)"
    by (auto simp: word_then_space_def split: if_splits)
  from wa obtain c cs where d: "drop (length w) s = c # cs" and c: "isSpace c"
    by (auto simp: white_after_def split: list.splits)
  have "length r \<le> length cs"
    using r d c by (simp add: length_dropWhile_le)
  moreover have "length (c # cs) \<le> length s"
    using d by (metis diff_le_self length_drop)
  ultimately show ?thesis by simp
qed

lemma separatorAt_None: "separatorAt s = None \<Longrightarrow> rmatch separatorPattern s = []"
  by (simp add: separatorAt_def separatorPattern_def rmatch_Seq_Alt word_space_end_None
      split: option.splits del: lit_ci.simps)

lemma separatorAt_Some:
  assumes "separatorAt s = Some r"
  shows "\<exists>xs. rmatch separatorPattern s = ([], r) # xs"
proof -
  have e: "rmatch separatorPattern s =
      rmatch (Seq (lit_ci ''into'') ws1) s @ rmatch (Seq (lit_ci ''in'') ws1) s @
      rmatch (Seq (lit_ci ''to'') ws1) s"
    by (simp add: separatorPattern_def rmatch_Seq_Alt del: lit_ci.simps)
  show ?thesis
  proof (cases "word_then_space ''into'' s")
    case (Some a)
    then have "a = r" using assms by (simp add: separatorAt_def)
    then show ?thesis using word_space_end_Some [OF Some] e by auto
  next
    case None
    note n1 = this
    show ?thesis
    proof (cases "word_then_space ''in'' s")
      case (Some a)
      then have "a = r" using assms n1 by (simp add: separatorAt_def)
      then show ?thesis
        using word_space_end_Some [OF Some] word_space_end_None [OF n1] e by auto
    next
      case None
      then have "word_then_space ''to'' s = Some r" using assms n1 by (simp add: separatorAt_def)
      then show ?thesis
        using word_space_end_Some [of "''to''" s r] word_space_end_None [OF n1]
          word_space_end_None [OF None] e by auto
    qed
  qed
qed

lemma separatorAt_shorter: "separatorAt s = Some r \<Longrightarrow> length r < length s"
  by (auto simp: separatorAt_def word_then_space_shorter split: option.splits)

lemma separatorAt_Nil: "separatorAt [] = None"
  by (simp add: separatorAt_def word_then_space_def starts_ci_def)

lemma re_split_from_cut:
  "re_split_from separatorPattern acc s =
     (case cutAtSeparator s of
        None \<Rightarrow> [acc @ s]
      | Some (b, a) \<Rightarrow> (acc @ b) # re_split_from separatorPattern [] a)"
proof (induction s arbitrary: acc)
  case Nil
  show ?case by simp
next
  case (Cons c cs)
  show ?case
  proof (cases "separatorAt (c # cs)")
    case None
    have "rmatch separatorPattern (c # cs) = []" using None by (rule separatorAt_None)
    then show ?thesis using None Cons.IH [of "acc @ [c]"]
      by (simp split: option.splits)
  next
    case (Some r)
    obtain xs where m: "rmatch separatorPattern (c # cs) = ([], r) # xs"
      using separatorAt_Some [OF Some] by blast
    have "length r < length (c # cs)" using Some by (rule separatorAt_shorter)
    then show ?thesis using Some m by simp
  qed
qed

lemma re_split_cut:
  "re_split separatorPattern s =
     (case cutAtSeparator s of
        None \<Rightarrow> [s]
      | Some (b, a) \<Rightarrow> b # re_split_from separatorPattern [] a)"
proof (cases s)
  case Nil
  then show ?thesis by (simp add: re_split_def separatorAt_None [OF separatorAt_Nil])
next
  case (Cons c cs)
  have "re_split separatorPattern s = re_split_from separatorPattern [] s"
    using Cons by (simp add: re_split_def)
  also have "\<dots> = (case cutAtSeparator s of
        None \<Rightarrow> [[] @ s]
      | Some (b, a) \<Rightarrow> ([] @ b) # re_split_from separatorPattern [] a)"
    by (rule re_split_from_cut)
  also have "\<dots> = (case cutAtSeparator s of
        None \<Rightarrow> [s]
      | Some (b, a) \<Rightarrow> b # re_split_from separatorPattern [] a)"
    by (cases "cutAtSeparator s") auto
  finally show ?thesis .
qed

lemma re_split_from_second:
  "re_split_from separatorPattern [] a ! 0 =
     (case cutAtSeparator a of None \<Rightarrow> a | Some (mid, r) \<Rightarrow> mid)"
  using re_split_from_cut [of "[]" a] by (simp split: option.splits)

lemma stripVerb_regex: "re_replace_at_start verbPattern [] s = stripVerb s"
proof -
  have e: "rmatch verbPattern s =
      rmatch (Seq (lit_ci ''type'') ws1) s @ rmatch (Seq (lit_ci ''enter'') ws1) s"
    by (simp add: verbPattern_def rmatch_Seq_Alt del: lit_ci.simps)
  show ?thesis
  proof (cases "word_then_space ''type'' s")
    case (Some r)
    then show ?thesis using word_space_end_Some [OF Some] e
      by (auto simp: re_replace_at_start_def stripVerb_def verbAt_def)
  next
    case None
    note n1 = this
    show ?thesis
    proof (cases "word_then_space ''enter'' s")
      case (Some r)
      then show ?thesis using word_space_end_Some [OF Some] word_space_end_None [OF n1] e n1
        by (auto simp: re_replace_at_start_def stripVerb_def verbAt_def)
    next
      case None
      then show ?thesis using word_space_end_None [OF None] word_space_end_None [OF n1] e n1
        by (simp add: re_replace_at_start_def stripVerb_def verbAt_def)
    qed
  qed
qed

lemma stripQuotes_filter: "stripQuotes s = unquote s"
  unfolding stripQuotes_def unquote_def
  by (induction s) (simp_all add: rmatch_chr)

lemma extractInputValues_amended: "extractInputValues step = extractInputValuesAmended step"
proof (cases "findTypeForm step")
  case (Some x)
  obtain v t where x: "x = (v, t)" by (cases x)
  have "str_match typePattern step = Some [v, t]"
    using str_match_typePattern [of "[]" step] Some x by (simp add: str_match_def)
  then show ?thesis using Some x
    by (simp add: extractInputValues_def extractInputValuesAmended_def group_def)
next
  case None
  have m: "str_match typePattern step = None"
    using str_match_typePattern [of "[]" step] None by (simp add: str_match_def)
  show ?thesis
  proof (cases "cutAtSeparator step")
    case None
    then show ?thesis using m \<open>findTypeForm step = None\<close>
      by (simp add: extractInputValues_def extractInputValuesAmended_def re_split_cut)
  next
    case (Some y)
    obtain before after where y: "y = (before, after)" by (cases y)
    have p: "re_split separatorPattern step = before # re_split_from separatorPattern [] after"
      using Some y by (simp add: re_split_cut)
    have l: "length (re_split_from separatorPattern [] after) \<ge> 1"
      using re_split_from_cut [of "[]" after] by (simp split: option.splits)
    have "extractInputValues step =
        (stripQuotes (re_split_from separatorPattern [] after ! 0),
         stripQuotes (re_replace_at_start verbPattern [] before))"
      using m l by (simp add: extractInputValues_def p Let_def)
    then show ?thesis using Some y \<open>findTypeForm step = None\<close>
      by (simp add: extractInputValuesAmended_def re_split_from_second stripVerb_regex
          stripQuotes_filter)
  qed
qed

lemma quotedAt_exact:
  assumes "v \<noteq> []" "CHR 0x22 \<notin> set v"
  shows "quotedAt (CHR 0x22 # v @ CHR 0x22 # r) = Some (v, r)"
proof -
  have t: "takeWhile (\<lambda>x. x \<noteq> CHR 0x22) (v @ CHR 0x22 # r) = v"
    using assms(2) by (subst takeWhile_append2) auto
  have d: "dropWhile (\<lambda>x. x \<noteq> CHR 0x22) (v @ CHR 0x22 # r) = CHR 0x22 # r"
    using assms(2) by (subst dropWhile_append2) auto
  show ?thesis using assms(1) by (simp add: quotedAt_def t d)
qed

lemma starts_ci_append: "starts_ci w (w @ r)"
  by (simp add: starts_ci_def)

lemma word_then_space_exact:
  assumes "r = [] \<or> \<not> isSpace (hd r)"
  shows "word_then_space w (w @ CHR '' '' # r) = Some r"
proof -
  have "isSpace CHR '' ''" by (simp add: isSpace_def)
  moreover have "dropWhile isSpace r = r" using assms by (cases r) auto
  ultimately show ?thesis
    by (simp add: word_then_space_def starts_ci_append white_after_def)
qed

lemma type_form_exact:
  assumes "v \<noteq> []" "CHR 0x22 \<notin> set v" "t \<noteq> []" "CHR 0x22 \<notin> set t"
  shows "extractInputValues
           (''type '' @ CHR 0x22 # v @ CHR 0x22 # '' into '' @ CHR 0x22 # t @ [CHR 0x22]) = (t, v)"
proof -
  let ?s5 = "CHR 0x22 # t @ [CHR 0x22]"
  let ?s3 = "''into'' @ CHR '' '' # ?s5"
  let ?s2 = "[] @ CHR '' '' # ?s3"
  let ?s1 = "CHR 0x22 # v @ CHR 0x22 # ?s2"
  let ?s = "''type'' @ CHR '' '' # ?s1"
  have nq: "\<not> isSpace CHR 0x22" by (rule not_space_quote)
  have ni: "\<not> isSpace CHR ''i''" by (simp add: isSpace_def)
  have 1: "verbAt ?s = Some ?s1"
    unfolding verbAt_def using word_then_space_exact [of ?s1 "''type''"] nq by simp
  have 2: "quotedAt ?s1 = Some (v, ?s2)"
    using assms(1,2) by (rule quotedAt_exact)
  have 3: "word_then_space [] ?s2 = Some ?s3"
    using word_then_space_exact [of ?s3 "[]"] ni by simp
  have 4: "intoAt ?s3 = Some ?s5"
    unfolding intoAt_def using word_then_space_exact [of ?s5 "''into''"] nq by simp
  have 5: "quotedAt ?s5 = Some (t, [])"
    using quotedAt_exact [OF assms(3,4), of "[]"] by simp
  have "typeFormAt ?s = Some (v, t, [])"
    by (simp only: typeFormAt_def 1 2 3 4 5 option.case prod.case)
  then have "findTypeForm ?s = Some (v, t)"
    by simp
  then have "extractInputValuesAmended ?s = (t, v)"
    by (simp add: extractInputValuesAmended_def)
  then show ?thesis by (simp add: extractInputValues_amended)
qed

lemma cut_append: "separatorAt s \<noteq> None \<Longrightarrow> cutAtSeparator (a @ s) \<noteq> None"
proof (induction a)
  case Nil
  then show ?case by (cases s) (auto simp: separatorAt_Nil)
next
  case (Cons c a)
  then show ?case by (cases "separatorAt (c # a @ s)") auto
qed

lemma cut_suffix:
  assumes "suffix s3 s" "separatorAt s3 \<noteq> None"
  shows "cutAtSeparator s \<noteq> None"
proof -
  obtain a where "s = a @ s3" using assms(1) by (auto simp: suffix_def)
  then show ?thesis using cut_append [OF assms(2)] by simp
qed

lemma word_then_space_suffix: "word_then_space w s = Some r \<Longrightarrow> suffix r s"
proof -
  assume "word_then_space w s = Some r"
  then have r: "r = dropWhile isSpace (drop (length w) s)"
    by (simp add: word_then_space_def split: if_splits)
  have "suffix r (drop (length w) s)" unfolding r by (rule suffix_dropWhile)
  moreover have "suffix (drop (length w) s) s" by (rule suffix_drop)
  ultimately show ?thesis by (rule suffix_order.trans)
qed

lemma quotedAt_suffix: "quotedAt s = Some (v, r) \<Longrightarrow> suffix r s"
proof -
  assume a: "quotedAt s = Some (v, r)"
  then obtain c cs q where s: "s = c # cs" and d: "dropWhile (\<lambda>x. x \<noteq> CHR 0x22) cs = q # r"
    by (auto simp: quotedAt_def split: list.splits if_splits)
  have "suffix (q # r) cs" using suffix_dropWhile [of "\<lambda>x. x \<noteq> CHR 0x22" cs] d by simp
  then have "suffix r cs" by (rule suffix_ConsD)
  then show ?thesis using s by (simp add: suffix_Cons)
qed

lemma verbAt_suffix: "verbAt s = Some r \<Longrightarrow> suffix r s"
  by (auto simp: verbAt_def dest: word_then_space_suffix split: option.splits)

lemma intoAt_separator: "intoAt s \<noteq> None \<Longrightarrow> separatorAt s \<noteq> None"
  by (auto simp: intoAt_def separatorAt_def split: option.splits)

lemma typeFormAt_separator:
  assumes "typeFormAt s \<noteq> None"
  shows "cutAtSeparator s \<noteq> None"
proof -
  from assms obtain s1 v s2 s3 where 1: "verbAt s = Some s1" and 2: "quotedAt s1 = Some (v, s2)"
    and 3: "word_then_space [] s2 = Some s3" and 4: "intoAt s3 \<noteq> None"
    by (auto simp: typeFormAt_def split: option.splits)
  have "suffix s3 s2" using 3 by (rule word_then_space_suffix)
  moreover have "suffix s2 s1" using 2 by (rule quotedAt_suffix)
  moreover have "suffix s1 s" using 1 by (rule verbAt_suffix)
  ultimately have "suffix s3 s" by (meson suffix_order.trans)
  then show ?thesis using intoAt_separator [OF 4] by (rule cut_suffix)
qed

lemma findTypeForm_separator: "findTypeForm s \<noteq> None \<Longrightarrow> cutAtSeparator s \<noteq> None"
proof (induction s)
  case Nil
  then show ?case by simp
next
  case (Cons c cs)
  show ?case
  proof (cases "typeFormAt (c # cs)")
    case None
    then have "findTypeForm cs \<noteq> None" using Cons.prems by simp
    then have "cutAtSeparator cs \<noteq> None" by (rule Cons.IH)
    then show ?thesis by (cases "separatorAt (c # cs)") auto
  next
    case (Some x)
    then have "typeFormAt (c # cs) \<noteq> None" by simp
    then show ?thesis by (rule typeFormAt_separator)
  qed
qed

lemma no_separator:
  assumes "cutAtSeparator step = None"
  shows "extractInputValues step = (step, [])"
proof -
  have "findTypeForm step = None"
    using findTypeForm_separator [of step] assms by blast
  then show ?thesis using assms
    by (simp add: extractInputValues_amended extractInputValuesAmended_def)
qed

text \<open>
  C5, as the specification states it, fails: with two separators in a step the source
  takes as target the text between them, not everything after the first one.
\<close>

theorem input_extraction_counterexample:
  "extractInputValues ''enter foo in bar to baz'' = (''bar '', ''foo '') \<and>
   extractInputValuesFirstCut ''enter foo in bar to baz'' = (''bar to baz'', ''foo '')"
  by code_simp

text \<open>
  C5, amended. Extraction first looks for the form (type|enter) "V" (into|in) "T",
  leftmost in the step and case ignored, and yields target T and value V; in
  particular \<^verbatim>\<open>type "V" into "T"\<close> yields (T, V). Otherwise the step is cut at every
  word into|in|to that is followed by white space: the value is the text before the
  first separator with the leading verb and all quotes stripped, the target is the
  text between the first and the second separator (up to the end of the step when
  there is no second one) with quotes stripped. A step without a separator yields
  the whole step as target and the empty value.
\<close>

theorem input_extraction_amended:
  "extractInputValues step = extractInputValuesAmended step \<and>
   (v \<noteq> [] \<and> CHR 0x22 \<notin> set v \<and> t \<noteq> [] \<and> CHR 0x22 \<notin> set t \<longrightarrow>
      extractInputValues
        (''type '' @ CHR 0x22 # v @ CHR 0x22 # '' into '' @ CHR 0x22 # t @ [CHR 0x22]) = (t, v)) \<and>
   (cutAtSeparator step = None \<longrightarrow> extractInputValues step = (step, []))"
  using extractInputValues_amended [of step] type_form_exact [of v t] no_separator [of step]
  by blast

lemma input_samples:
  "extractInputValuesAmended ''enter foo in bar to baz'' = (''bar '', ''foo '') \<and>
   cutAtSeparator ''type hello'' = None"
  by code_simp

theorem input_extraction_amended_witness:
  "extractInputValues ''enter foo in bar to baz'' = (''bar '', ''foo '') \<and>
   extractInputValues
     (''type '' @ CHR 0x22 # ''hello'' @ CHR 0x22 # '' into '' @ CHR 0x22 # ''Name'' @ [CHR 0x22]) =
     (''Name'', ''hello'') \<and>
   cutAtSeparator ''type hello'' = None \<and>
   extractInputValues ''type hello'' = (''type hello'', [])"
proof -
  have 1: "extractInputValues ''enter foo in bar to baz'' = (''bar '', ''foo '')"
    by (simp only: input_extraction_amended [of "''enter foo in bar to baz''" "[]" "[]", THEN conjunct1]
        input_samples [THEN conjunct1])
  have 2: "extractInputValues
     (''type '' @ CHR 0x22 # ''hello'' @ CHR 0x22 # '' into '' @ CHR 0x22 # ''Name'' @ [CHR 0x22]) =
     (''Name'', ''hello'')"
    by (rule mp [OF input_extraction_amended [of "[]" "''hello''" "''Name''", THEN conjunct2,
          THEN conjunct1]]) simp
  have 3: "cutAtSeparator ''type hello'' = None"
    by (rule input_samples [THEN conjunct2])
  have 4: "extractInputValues ''type hello'' = (''type hello'', [])"
    by (rule mp [OF input_extraction_amended [of "''type hello''" "[]" "[]", THEN conjunct2,
          THEN conjunct2] 3])
  show ?thesis
    by (intro conjI 1 2 3 4)
qed

section \<open>Health of the Appium adapter\<close>

text \<open>
  C6, as the specification states it, fails: a server that answers with an OK status
  and a body whose readiness flag is false is reported healthy.
\<close>

theorem health_ignores_readiness_counterexample:
  "health_status (AppiumEngine_getHealthStatus (Inr \<lparr>ok = True, body = Inr notReadyBody\<rparr>)) = ''healthy'' \<and>
   readinessFlag notReadyBody = False"
  by (simp add: AppiumEngine_getHealthStatus_def readinessFlag_def notReadyBody_def getProp_def
      optChain_def truthy_def)

lemma getProp_nonnull: "data \<noteq> JNull \<Longrightarrow> \<exists>v. getProp data k = Inr v"
  by (cases data) (simp_all add: getProp_def)

lemma healthy_iff:
  "health_status (AppiumEngine_getHealthStatus fetched) = ''healthy'' \<longleftrightarrow>
     (\<exists>r data. fetched = Inr r \<and> ok r \<and> body r = Inr data \<and> data \<noteq> JNull)"
proof (cases fetched)
  case (Inl e)
  then show ?thesis by (simp add: AppiumEngine_getHealthStatus_def)
next
  case (Inr r)
  show ?thesis
  proof (cases "ok r")
    case False
    then show ?thesis using Inr by (simp add: AppiumEngine_getHealthStatus_def)
  next
    case True
    show ?thesis
    proof (cases "body r")
      case (Inl e)
      then show ?thesis using Inr True by (simp add: AppiumEngine_getHealthStatus_def)
    next
      case (Inr data)
      show ?thesis
      proof (cases "data = JNull")
        case True
        then show ?thesis using \<open>fetched = Inr r\<close> \<open>ok r\<close> Inr
          by (simp add: AppiumEngine_getHealthStatus_def getProp_def)
      next
        case False
        then obtain v where "getProp data ''value'' = Inr v"
          using getProp_nonnull by blast
        then show ?thesis using \<open>fetched = Inr r\<close> \<open>ok r\<close> Inr False
          by (simp add: AppiumEngine_getHealthStatus_def)
      qed
    qed
  qed
qed

text \<open>
  C6, amended. The adapter reports \<^verbatim>\<open>healthy\<close> exactly when the status endpoint
  answers with an OK status and a JSON body other than \<^verbatim>\<open>null\<close>, whatever the
  readiness flag; the flag is only copied into the details (false when it is absent
  or falsy). An answer that is not OK gives \<^verbatim>\<open>unhealthy\<close> with the detail
  \<^verbatim>\<open>Server not responding\<close>; a rejected request, a body that does not parse and a
  \<^verbatim>\<open>null\<close> body give \<^verbatim>\<open>error\<close> with the exception's message as detail.
\<close>

theorem health_status_amended:
  "(health_status (AppiumEngine_getHealthStatus fetched) = ''healthy'' \<longleftrightarrow>
      (\<exists>r data. fetched = Inr r \<and> ok r \<and> body r = Inr data \<and> data \<noteq> JNull)) \<and>
   (ok r \<and> body r = Inr data \<and> getProp data ''value'' = Inr v \<longrightarrow>
      AppiumEngine_getHealthStatus (Inr r) =
        \<lparr>health_status = ''healthy'',
         details = DetailInfo (orElse (optChain v ''ready'') (JBool False))
                     (orElse (optChain v ''message'') (JString ''Unknown''))
                     (orElse (optChain v ''build'') (JObject []))\<rparr>) \<and>
   (\<not> ok r \<longrightarrow>
      AppiumEngine_getHealthStatus (Inr r) =
        \<lparr>health_status = ''unhealthy'', details = DetailText ''Server not responding''\<rparr>) \<and>
   (ok r \<and> body r = Inl e \<longrightarrow>
      AppiumEngine_getHealthStatus (Inr r) =
        \<lparr>health_status = ''error'', details = DetailText (errorMessage e)\<rparr>) \<and>
   (ok r \<and> body r = Inr JNull \<longrightarrow>
      AppiumEngine_getHealthStatus (Inr r) =
        \<lparr>health_status = ''error'', details = DetailText (errorMessage (nullAccessError ''value''))\<rparr>) \<and>
   AppiumEngine_getHealthStatus (Inl e) =
     \<lparr>health_status = ''error'', details = DetailText (errorMessage e)\<rparr>"
  using healthy_iff [of fetched]
  by (simp add: AppiumEngine_getHealthStatus_def getProp_def)

theorem health_status_amended_witness:
  "health_status (AppiumEngine_getHealthStatus (Inr \<lparr>ok = True, body = Inr notReadyBody\<rparr>)) = ''healthy'' \<and>
   AppiumEngine_getHealthStatus (Inr \<lparr>ok = True, body = Inr notReadyBody\<rparr>) =
     \<lparr>health_status = ''healthy'',
      details = DetailInfo (JBool False) (JString ''starting'') (JObject [])\<rparr> \<and>
   AppiumEngine_getHealthStatus (Inr \<lparr>ok = False, body = Inr notReadyBody\<rparr>) =
     \<lparr>health_status = ''unhealthy'', details = DetailText ''Server not responding''\<rparr> \<and>
   AppiumEngine_getHealthStatus (Inr \<lparr>ok = True, body = Inl (Error ''Unexpected token'')\<rparr>) =
     \<lparr>health_status = ''error'', details = DetailText ''Unexpected token''\<rparr> \<and>
   health_status (AppiumEngine_getHealthStatus (Inr \<lparr>ok = True, body = Inr JNull\<rparr>)) = ''error''"
proof -
  let ?v = "Some (JObject [(''ready'', JBool False), (''message'', JString ''starting'')])"
  have v: "getProp notReadyBody ''value'' = Inr ?v"
    by (simp add: notReadyBody_def getProp_def)
  have d: "orElse (optChain ?v ''ready'') (JBool False) = JBool False \<and>
      orElse (optChain ?v ''message'') (JString ''Unknown'') = JString ''starting'' \<and>
      orElse (optChain ?v ''build'') (JObject []) = JObject []"
    by (simp add: orElse_def optChain_def getProp_def truthy_def)
  have 1: "AppiumEngine_getHealthStatus (Inr \<lparr>ok = True, body = Inr notReadyBody\<rparr>) =
     \<lparr>health_status = ''healthy'',
      details = DetailInfo (JBool False) (JString ''starting'') (JObject [])\<rparr>"
    using health_status_amended [of "Inr \<lparr>ok = True, body = Inr notReadyBody\<rparr>"
        "\<lparr>ok = True, body = Inr notReadyBody\<rparr>" notReadyBody ?v NonError] v d
    by simp
  have 2: "AppiumEngine_getHealthStatus (Inr \<lparr>ok = False, body = Inr notReadyBody\<rparr>) =
     \<lparr>health_status = ''unhealthy'', details = DetailText ''Server not responding''\<rparr>"
    using health_status_amended [of "Inl NonError" "\<lparr>ok = False, body = Inr notReadyBody\<rparr>"
        JNull None NonError]
    by simp
  have 3: "AppiumEngine_getHealthStatus (Inr \<lparr>ok = True, body = Inl (Error ''Unexpected token'')\<rparr>) =
     \<lparr>health_status = ''error'', details = DetailText ''Unexpected token''\<rparr>"
    using health_status_amended [of "Inl NonError"
        "\<lparr>ok = True, body = Inl (Error ''Unexpected token'')\<rparr>" JNull None "Error ''Unexpected token''"]
    by (simp add: errorMessage_def)
  have 4: "health_status (AppiumEngine_getHealthStatus (Inr \<lparr>ok = True, body = Inr JNull\<rparr>)) = ''error''"
    using health_status_amended [of "Inl NonError" "\<lparr>ok = True, body = Inr JNull\<rparr>" JNull None NonError]
    by simp
  show ?thesis using 1 2 3 4 by simp
qed

section \<open>Coverage bounds\<close>

lemma scale_unit_interval: "(0::rat) \<le> q \<Longrightarrow> q \<le> 1 \<Longrightarrow> 0 \<le> q * 100 \<and> q * 100 \<le> 100"
  by simp

lemma passRate_bounds: "0 \<le> passRate ts \<and> passRate ts \<le> 100"
proof (cases "ts = []")
  case True
  then show ?thesis by (simp add: passRate_def)
next
  case False
  have le: "length (filter (\<lambda>t. status t = passed) ts) \<le> length ts"
    by (rule length_filter_le)
  have pos: "(0::rat) < of_nat (length ts)"
    using False by simp
  have up: "(of_nat (length (filter (\<lambda>t. status t = passed) ts)) :: rat) / of_nat (length ts) \<le> 1"
    using le pos by (simp add: divide_le_eq_1)
  have lo: "(0::rat) \<le> of_nat (length (filter (\<lambda>t. status t = passed) ts)) / of_nat (length ts)"
    by simp
  show ?thesis
    unfolding passRate_def by (rule scale_unit_interval [OF lo up])
qed

lemma baselineScore_bounds: "0 \<le> baselineScore rs \<and> baselineScore rs \<le> 100"
  using passRate_bounds [of rs] by (simp add: baselineScore_def)


definition sample_login :: TestResult where
  "sample_login =
     \<lparr>testName = ''login'', engine = ''playwright'', status = passed, duration = 5,
      startTime = 0, endTime = 5, error = None, screenshots = None, video = None, logs = None,
      performance = None\<rparr>"

lemma sample_login_eval:
  "functionalTests [sample_login] = [] \<and> visualTests [sample_login] = [] \<and>
   performanceTests [sample_login] = [] \<and> accessibilityTests [sample_login] = [] \<and>
   baselineScore [sample_login] = 100"
  by code_simp


end
